theory Spec2Isabelle
  imports Complex_Main
begin

section \<open>Strings\<close>

text \<open>
  A JavaScript string is a sequence of UTF-16 code units. A code unit is modelled by its
  numeric value, a string by the list of its code units; \<open>js\<close> embeds a literal.
\<close>

type_synonym jsstring = "nat list"

definition js :: "string \<Rightarrow> jsstring" where
  "js s = map of_char s"

text \<open>
  The code units that \<^verbatim>\<open>String.prototype.trim\<close> removes and that \<^verbatim>\<open>parseFloat\<close>
  skips at the start: the WhiteSpace and LineTerminator productions of ECMAScript.
\<close>

definition is_ws :: "nat \<Rightarrow> bool" where
  "is_ws c = (c \<in> set [0x9, 0xA, 0xB, 0xC, 0xD, 0x20, 0xA0, 0x1680,
                         0x2000, 0x2001, 0x2002, 0x2003, 0x2004, 0x2005, 0x2006, 0x2007,
                         0x2008, 0x2009, 0x200A, 0x2028, 0x2029, 0x202F, 0x205F, 0x3000,
                         0xFEFF])"

definition trimStart :: "jsstring \<Rightarrow> jsstring" where
  "trimStart s = dropWhile is_ws s"

definition trimEnd :: "jsstring \<Rightarrow> jsstring" where
  "trimEnd s = rev (dropWhile is_ws (rev s))"

definition trim :: "jsstring \<Rightarrow> jsstring" where
  "trim s = trimEnd (trimStart s)"

text \<open>
  \<^verbatim>\<open>s.slice(b, e)\<close>: a negative index counts from the end, both indices are clamped to
  the string, and an empty range gives the empty string.
\<close>

definition slice :: "jsstring \<Rightarrow> int \<Rightarrow> int \<Rightarrow> jsstring" where
  "slice s b e =
     (let n = int (length s);
          from = (if b < 0 then max (n + b) 0 else min b n);
          to = (if e < 0 then max (n + e) 0 else min e n)
      in take (nat (to - from)) (drop (nat from) s))"

definition startsWith :: "jsstring \<Rightarrow> jsstring \<Rightarrow> bool" where
  "startsWith s p = (take (length p) s = p)"

text \<open>
  \<^verbatim>\<open>s.split(sep)\<close> for a separator of one code unit: the pieces between the
  occurrences of the separator, so the empty string gives one empty piece.
\<close>

fun split :: "jsstring \<Rightarrow> nat \<Rightarrow> jsstring list" where
  "split [] sep = [[]]"
| "split (c # cs) sep =
     (if c = sep then [] # split cs sep
      else (case split cs sep of
              [] \<Rightarrow> [[c]]
            | p # ps \<Rightarrow> (c # p) # ps))"

text \<open>
  \<^verbatim>\<open>inner.match(/\([^)]+\)/g) || []\<close>: all matches of the pattern, scanning from the
  left. At an opening parenthesis the greedy class takes every code unit before the next
  closing parenthesis; the match succeeds when it took at least one and a closing
  parenthesis follows, and the scan goes on after the match. Otherwise the scan moves on
  by one code unit.
\<close>

definition lparen :: nat where "lparen = 0x28"
definition rparen :: nat where "rparen = 0x29"
definition lbracket :: nat where "lbracket = 0x5B"
definition comma :: nat where "comma = 0x2C"

function pointMatches :: "jsstring \<Rightarrow> jsstring list" where
  "pointMatches [] = []"
| "pointMatches (c # cs) =
     (let body = takeWhile (\<lambda>d. d \<noteq> rparen) cs;
          rest = dropWhile (\<lambda>d. d \<noteq> rparen) cs
      in if c = lparen \<and> body \<noteq> [] \<and> rest \<noteq> []
         then (c # body @ [rparen]) # pointMatches (tl rest)
         else pointMatches cs)"
  by pat_completeness auto
termination
proof (relation "measure length")
  show "wf (measure length)" by simp
next
  fix c :: nat and cs body rest :: "nat list"
  assume r: "rest = dropWhile (\<lambda>d. d \<noteq> rparen) cs"
    and c: "c = lparen \<and> body \<noteq> [] \<and> rest \<noteq> []"
  have "length (tl rest) \<le> length rest" by simp
  also have "length rest \<le> length cs" unfolding r by (rule length_dropWhile_le)
  finally show "(tl rest, c # cs) \<in> measure length" by simp
next
  fix c :: nat and cs :: "nat list"
  show "(cs, c # cs) \<in> measure length" by simp
qed

section \<open>Numbers\<close>

text \<open>
  A JavaScript number is an IEEE 754 binary64 value: NaN, an infinity with its sign, or a
  finite value with its sign (\<open>True\<close> for negative) and its magnitude, a rational. Zero
  has a sign. The arithmetic operators compute the exact result and round it to the
  nearest representable value, ties to the even significand.
\<close>

datatype number = NaN | Infinity bool | Finite bool rat

definition isNaN :: "number \<Rightarrow> bool" where
  "isNaN v = (case v of NaN \<Rightarrow> True | _ \<Rightarrow> False)"

definition isFinite :: "number \<Rightarrow> bool" where
  "isFinite v = (case v of Finite s m \<Rightarrow> True | _ \<Rightarrow> False)"

fun bitlen :: "nat \<Rightarrow> nat" where
  "bitlen n = (if n = 0 then 0 else Suc (bitlen (n div 2)))"

declare bitlen.simps [simp del]

text \<open>Powers of two with an integer exponent.\<close>

definition pow2 :: "int \<Rightarrow> rat" where
  "pow2 k = (if 0 \<le> k then 2 ^ nat k else 1 / 2 ^ nat (- k))"

text \<open>
  \<open>ilog2 p q\<close> is the exponent \<open>e\<close> with \<open>2^e \<le> p / q < 2^(e + 1)\<close>, for positive
  \<open>p\<close> and \<open>q\<close>.
\<close>

definition ilog2 :: "int \<Rightarrow> int \<Rightarrow> int" where
  "ilog2 p q =
     (let k = int (bitlen (nat p)) - int (bitlen (nat q))
      in if (if 0 \<le> k then q * 2 ^ nat k \<le> p else q \<le> p * 2 ^ nat (- k))
         then k else k - 1)"

text \<open>
  Rounding of an integer quotient to the nearest integer, a tie going to the even one.
\<close>

definition roundTiesToEven :: "int \<Rightarrow> int \<Rightarrow> int" where
  "roundTiesToEven num den =
     (let n = num div den; r = num mod den
      in if 2 * r < den then n
         else if den < 2 * r then n + 1
         else if even n then n else n + 1)"

text \<open>
  \<open>roundMagnitude m\<close> rounds the magnitude \<open>m\<close> to binary64: 53 significant bits, the
  exponent of the last bit no smaller than -1074 (the subnormal range). \<open>None\<close> is the
  overflow to infinity, which happens when the rounded value reaches \<open>2^1024\<close>.
\<close>

definition roundMagnitude :: "rat \<Rightarrow> rat option" where
  "roundMagnitude m =
     (if m \<le> 0 then Some 0
      else
        let (p, q) = quotient_of m;
            x = max (ilog2 p q - 52) (- 1074);
            n = (if 0 \<le> x then roundTiesToEven p (q * 2 ^ nat x)
                 else roundTiesToEven (p * 2 ^ nat (- x)) q);
            r = of_int n * pow2 x
        in if pow2 1024 \<le> r then None else Some r)"

definition toNumber :: "bool \<Rightarrow> rat \<Rightarrow> number" where
  "toNumber s m = (case roundMagnitude m of None \<Rightarrow> Infinity s | Some r \<Rightarrow> Finite s r)"

text \<open>The value of a finite number as a rational.\<close>

definition signed :: "bool \<Rightarrow> rat \<Rightarrow> rat" where
  "signed s m = (if s then - m else m)"

fun fneg :: "number \<Rightarrow> number" where
  "fneg NaN = NaN"
| "fneg (Infinity s) = Infinity (\<not> s)"
| "fneg (Finite s m) = Finite (\<not> s) m"

text \<open>
  Addition. An exact sum of zero is \<open>+0\<close> unless both operands are negative (then
  both are \<open>-0\<close>).
\<close>

fun fadd :: "number \<Rightarrow> number \<Rightarrow> number" where
  "fadd NaN _ = NaN"
| "fadd _ NaN = NaN"
| "fadd (Infinity s) (Infinity t) = (if s = t then Infinity s else NaN)"
| "fadd (Infinity s) (Finite t b) = Infinity s"
| "fadd (Finite s a) (Infinity t) = Infinity t"
| "fadd (Finite s a) (Finite t b) =
     (let v = signed s a + signed t b
      in if v = 0 then Finite (s \<and> t) 0 else toNumber (v < 0) \<bar>v\<bar>)"

definition fsub :: "number \<Rightarrow> number \<Rightarrow> number" where
  "fsub a b = fadd a (fneg b)"

fun fmul :: "number \<Rightarrow> number \<Rightarrow> number" where
  "fmul NaN _ = NaN"
| "fmul _ NaN = NaN"
| "fmul (Infinity s) (Infinity t) = Infinity (s \<noteq> t)"
| "fmul (Infinity s) (Finite t b) = (if b = 0 then NaN else Infinity (s \<noteq> t))"
| "fmul (Finite s a) (Infinity t) = (if a = 0 then NaN else Infinity (s \<noteq> t))"
| "fmul (Finite s a) (Finite t b) = toNumber (s \<noteq> t) (a * b)"

fun fdiv :: "number \<Rightarrow> number \<Rightarrow> number" where
  "fdiv NaN _ = NaN"
| "fdiv _ NaN = NaN"
| "fdiv (Infinity s) (Infinity t) = NaN"
| "fdiv (Infinity s) (Finite t b) = Infinity (s \<noteq> t)"
| "fdiv (Finite s a) (Infinity t) = Finite (s \<noteq> t) 0"
| "fdiv (Finite s a) (Finite t b) =
     (if b = 0 then (if a = 0 then NaN else Infinity (s \<noteq> t))
      else toNumber (s \<noteq> t) (a / b))"

section \<open>parseFloat\<close>

text \<open>
  \<^verbatim>\<open>parseFloat\<close> skips leading white space, takes the longest prefix of the rest that
  is a StrDecimalLiteral (an optional sign, then \<^verbatim>\<open>Infinity\<close> or decimal digits with an
  optional fraction and an optional exponent) and returns its value rounded to a number,
  or NaN when no prefix is one. Whatever follows the prefix is ignored. The value is
  rounded from the exact decimal value; ECMAScript also allows an engine to drop the
  digits after the twentieth significant one first.
\<close>

definition is_digit :: "nat \<Rightarrow> bool" where
  "is_digit c = (0x30 \<le> c \<and> c \<le> 0x39)"

definition digitsValue :: "jsstring \<Rightarrow> nat" where
  "digitsValue ds = foldl (\<lambda>acc c. 10 * acc + (c - 0x30)) 0 ds"

text \<open>
  The exponent part at the start of a string: \<^verbatim>\<open>e\<close> or \<^verbatim>\<open>E\<close>, an optional sign and
  at least one digit; 0 when there is none (the prefix then ends before it).
\<close>

definition exponentPart :: "jsstring \<Rightarrow> int" where
  "exponentPart s =
     (case s of
        [] \<Rightarrow> 0
      | c # t \<Rightarrow>
          if c = 0x65 \<or> c = 0x45 then
            (case t of
               [] \<Rightarrow> 0
             | d # u \<Rightarrow>
                 if d = 0x2B \<or> d = 0x2D then
                   (let ds = takeWhile is_digit u
                    in if ds = [] then 0
                       else if d = 0x2D then - int (digitsValue ds) else int (digitsValue ds))
                 else
                   (let ds = takeWhile is_digit t
                    in if ds = [] then 0 else int (digitsValue ds)))
          else 0)"

text \<open>The mathematical value \<open>n * 10^k\<close> of a decimal literal.\<close>

definition scale10 :: "nat \<Rightarrow> int \<Rightarrow> rat" where
  "scale10 n k = (if 0 \<le> k then of_nat n * 10 ^ nat k else of_nat n / 10 ^ nat (- k))"

definition unsignedLiteral :: "bool \<Rightarrow> jsstring \<Rightarrow> number" where
  "unsignedLiteral s u =
     (if startsWith u (js ''Infinity'') then Infinity s
      else
        let ip = takeWhile is_digit u;
            u1 = dropWhile is_digit u;
            dot = startsWith u1 (js ''.'');
            fp = (if dot then takeWhile is_digit (tl u1) else []);
            u2 = (if dot then dropWhile is_digit (tl u1) else u1)
        in if ip = [] \<and> fp = [] then NaN
           else toNumber s (scale10 (digitsValue (ip @ fp)) (exponentPart u2 - int (length fp))))"

definition parseFloat :: "jsstring \<Rightarrow> number" where
  "parseFloat str =
     (let t = trimStart str
      in case t of
           [] \<Rightarrow> NaN
         | c # u \<Rightarrow>
             if c = 0x2D then unsignedLiteral True u
             else if c = 0x2B then unsignedLiteral False u
             else unsignedLiteral False t)"

section \<open>Numeric literals\<close>

text \<open>
  The numeric literals of the grammar, stated on their own and not through the scan of
  \<^verbatim>\<open>parseFloat\<close>: a literal is an optional sign followed by \<^verbatim>\<open>Infinity\<close> or by a
  mantissa and an optional exponent part; a mantissa is decimal digits, then optionally a
  point and decimal digits, with a digit on one side of the point at least. A string is a
  numeric literal when all of it is one; it has a numeric prefix when one of its prefixes
  is a numeric literal.
\<close>

definition isDecimalDigits :: "jsstring \<Rightarrow> bool" where
  "isDecimalDigits ds = (ds \<noteq> [] \<and> list_all is_digit ds)"

definition isExponentPart :: "jsstring \<Rightarrow> bool" where
  "isExponentPart e =
     (case e of
        [] \<Rightarrow> False
      | c # t \<Rightarrow>
          (c = 0x65 \<or> c = 0x45) \<and>
          (case t of
             [] \<Rightarrow> False
           | d # u \<Rightarrow> if d = 0x2B \<or> d = 0x2D then isDecimalDigits u else isDecimalDigits t))"

definition isMantissa :: "jsstring \<Rightarrow> bool" where
  "isMantissa m =
     list_ex
       (\<lambda>i. list_all is_digit (take i m) \<and>
            (case drop i m of
               [] \<Rightarrow> 0 < i
             | c # fs \<Rightarrow> c = 0x2E \<and> list_all is_digit fs \<and> (0 < i \<or> fs \<noteq> [])))
       [0..<Suc (length m)]"

definition isUnsignedLiteral :: "jsstring \<Rightarrow> bool" where
  "isUnsignedLiteral u =
     (u = js ''Infinity'' \<or>
      list_ex
        (\<lambda>j. isMantissa (take j u) \<and> (drop j u = [] \<or> isExponentPart (drop j u)))
        [0..<Suc (length u)])"

definition isNumericLiteral :: "jsstring \<Rightarrow> bool" where
  "isNumericLiteral t =
     (case t of
        [] \<Rightarrow> False
      | c # u \<Rightarrow> if c = 0x2B \<or> c = 0x2D then isUnsignedLiteral u else isUnsignedLiteral t)"

definition hasNumericPrefix :: "jsstring \<Rightarrow> bool" where
  "hasNumericPrefix t = list_ex (\<lambda>n. isNumericLiteral (take n t)) [0..<Suc (length t)]"

section \<open>Parsing points\<close>

type_synonym point = "number \<times> number"

text \<open>A thrown \<^verbatim>\<open>Error\<close>, with its message.\<close>

datatype error = Error jsstring

text \<open>\<^verbatim>\<open>parsePoint\<close>: a point, or \<open>None\<close> for \<^verbatim>\<open>null\<close>.\<close>

definition parsePoint :: "jsstring \<Rightarrow> point option" where
  "parsePoint pointStr =
     (let clean = trim (slice pointStr 1 (- 1));
          parts = map trim (split clean comma)
      in if length parts \<noteq> 2 then None
         else
           let x = parseFloat (parts ! 0);
               y = parseFloat (parts ! 1)
           in if isNaN x \<or> isNaN y then None else Some (x, y))"

text \<open>The points pushed by the loop over the matches: the matches that parse, in order.\<close>

fun pushParsed :: "point list \<Rightarrow> jsstring list \<Rightarrow> point list" where
  "pushParsed points [] = points"
| "pushParsed points (pStr # rest) =
     (case parsePoint pStr of
        None \<Rightarrow> pushParsed points rest
      | Some parsed \<Rightarrow> pushParsed (points @ [parsed]) rest)"

text \<open>The double quote of the messages.\<close>

definition quote :: jsstring where
  "quote = [0x22]"

definition pointsMessage :: "jsstring \<Rightarrow> jsstring" where
  "pointsMessage pointsStr =
     js ''Invalid points format: '' @ pointsStr @ js ''. Use '' @ quote @ js ''(x,y)'' @ quote
       @ js '' or '' @ quote @ js ''[(x,y) (x,y)]'' @ quote @ js ''.''"

definition parsePoints :: "jsstring \<Rightarrow> error + point list" where
  "parsePoints input =
     (let pointsStr = trim input;
          points =
            (if startsWith pointsStr [lbracket] then
               pushParsed [] (pointMatches (trim (slice pointsStr 1 (- 1))))
             else if startsWith pointsStr [lparen] then
               (case parsePoint pointsStr of None \<Rightarrow> [] | Some parsed \<Rightarrow> [parsed])
             else [])
      in if length points = 0 then Inl (Error (pointsMessage pointsStr))
         else Inr points)"

definition centerMessage :: "jsstring \<Rightarrow> jsstring" where
  "centerMessage centerStr =
     js ''Invalid center format: '' @ centerStr @ js ''. Use '' @ quote @ js ''(cx,cy)'' @ quote
       @ js '' or pass separate cx cy.''"

definition parseCenter :: "jsstring \<Rightarrow> error + point" where
  "parseCenter centerStr =
     (case (if startsWith centerStr [lparen] then parsePoint centerStr else None) of
        Some parsed \<Rightarrow> Inr (fst parsed, snd parsed)
      | None \<Rightarrow> Inl (Error (centerMessage centerStr)))"

section \<open>Rotation\<close>

text \<open>
  \<^verbatim>\<open>Math.PI\<close>: the binary64 value nearest to \<open>\<pi>\<close>, which is \<open>884279719003555 / 2^48\<close>.
\<close>

definition PI :: number where
  "PI = Finite False (884279719003555 / 2 ^ 48)"

text \<open>
  \<^verbatim>\<open>Math.cos\<close> and \<^verbatim>\<open>Math.sin\<close> belong to the JavaScript engine, not to the repository.
  ECMAScript leaves their results implementation-approximated and fixes them only at
  NaN, the zeros and the infinities. The two functions are a parameter of the model, and
  \<open>conforming\<close> says what ECMAScript requires of them.
\<close>

record math =
  mathCos :: "number \<Rightarrow> number"
  mathSin :: "number \<Rightarrow> number"

definition conforming :: "math \<Rightarrow> bool" where
  "conforming M =
     (mathCos M NaN = NaN \<and>
      mathCos M (Finite False 0) = Finite False 1 \<and>
      mathCos M (Finite True 0) = Finite False 1 \<and>
      mathCos M (Infinity False) = NaN \<and>
      mathCos M (Infinity True) = NaN \<and>
      mathSin M NaN = NaN \<and>
      mathSin M (Finite False 0) = Finite False 0 \<and>
      mathSin M (Finite True 0) = Finite True 0 \<and>
      mathSin M (Infinity False) = NaN \<and>
      mathSin M (Infinity True) = NaN)"

definition rotate_point ::
  "math \<Rightarrow> number \<Rightarrow> number \<Rightarrow> number \<Rightarrow> number \<Rightarrow> number \<Rightarrow> number \<times> number" where
  "rotate_point M x y angle cx cy =
     (let radians = fdiv (fmul angle PI) (Finite False 180);
          cos_r = mathCos M radians;
          sin_r = mathSin M radians;
          nx = fadd (fsub (fmul cos_r (fsub x cx)) (fmul sin_r (fsub y cy))) cx;
          ny = fadd (fadd (fmul sin_r (fsub x cx)) (fmul cos_r (fsub y cy))) cy
      in (nx, ny))"

text \<open>
  The numbers a program can hold: a finite number has a magnitude that rounding leaves
  unchanged.
\<close>

definition isDouble :: "number \<Rightarrow> bool" where
  "isDouble v = (case v of Finite s m \<Rightarrow> 0 \<le> m \<and> roundMagnitude m = Some m | _ \<Rightarrow> True)"

text \<open>
  \<open>exactDifference a b\<close>: both numbers are finite and \<open>a - b\<close> needs no rounding, the
  difference of the two values being representable.
\<close>

definition exactDifference :: "number \<Rightarrow> number \<Rightarrow> bool" where
  "exactDifference a b =
     (case a of
        Finite s m \<Rightarrow>
          (case b of
             Finite t n \<Rightarrow>
               roundMagnitude \<bar>signed s m - signed t n\<bar> = Some \<bar>signed s m - signed t n\<bar>
           | _ \<Rightarrow> False)
      | _ \<Rightarrow> False)"

text \<open>
  A library that is exact at the values ECMAScript fixes and, at every other finite
  argument, takes the cosine for 1 and the sine for the argument. It stands for the
  engine where a concrete one is needed.
\<close>

definition smallAngleMath :: math where
  "smallAngleMath =
     \<lparr>mathCos = (\<lambda>v. case v of Finite s m \<Rightarrow> Finite False 1 | _ \<Rightarrow> NaN),
      mathSin = (\<lambda>v. case v of Finite s m \<Rightarrow> Finite s m | _ \<Rightarrow> NaN)\<rparr>"



text \<open>
  The text made of gaps and matches in turn: a gap, a match, a gap, ..., a last gap.
\<close>

fun interleave :: "jsstring list \<Rightarrow> jsstring list \<Rightarrow> jsstring" where
  "interleave (g # gs) (m # ms) = g @ m @ interleave gs ms"
| "interleave gs [] = concat gs"
| "interleave [] ms = concat ms"

section \<open>Properties of the string operations\<close>

lemma slice_inner: "slice s 1 (- 1) = butlast (tl s)"
proof (cases s)
  case Nil
  then show ?thesis by (simp add: slice_def)
next
  case (Cons a t)
  then show ?thesis
    by (cases t) (simp_all add: slice_def butlast_conv_take)
qed

lemma comma_not_ws: "\<not> is_ws comma"
  by (simp add: is_ws_def comma_def)

lemma split_nonempty: "split s c \<noteq> []"
  by (induction s) (auto split: list.splits)

lemma split_Cons_other: "a \<noteq> c \<Longrightarrow> split (a # s) c = (a # hd (split s c)) # tl (split s c)"
  using split_nonempty [of s c] by (cases "split s c") auto

lemma split_snoc:
  "split (s @ [a]) c =
     (if a = c then split s c @ [[]]
      else butlast (split s c) @ [last (split s c) @ [a]])"
proof (induction s)
  case Nil
  then show ?case by simp
next
  case (Cons b s)
  then show ?case
    using split_nonempty [of s c] by (cases "split s c") (auto split: list.splits)
qed

lemma trimStart_ws_Cons: "is_ws a \<Longrightarrow> trimStart (a # s) = trimStart s"
  by (simp add: trimStart_def)

lemma trimEnd_ws_snoc: "is_ws a \<Longrightarrow> trimEnd (s @ [a]) = trimEnd s"
  by (simp add: trimEnd_def)

lemma trim_ws_Cons: "is_ws a \<Longrightarrow> trim (a # s) = trim s"
  by (simp add: trim_def trimStart_def)

lemma trimStart_snoc_ws:
  "is_ws a \<Longrightarrow> trimEnd (trimStart (s @ [a])) = trimEnd (trimStart s)"
  by (induction s) (auto simp: trimStart_def trimEnd_def)

lemma trim_ws_snoc: "is_ws a \<Longrightarrow> trim (s @ [a]) = trim s"
  by (simp add: trim_def trimStart_snoc_ws)

lemma map_trim_split_trimStart:
  "map trim (split (trimStart s) comma) = map trim (split s comma)"
proof (induction s)
  case Nil
  then show ?case by (simp add: trimStart_def)
next
  case (Cons a s)
  show ?case
  proof (cases "is_ws a")
    case True
    then have ne: "a \<noteq> comma" using comma_not_ws by auto
    have "map trim (split (a # s) comma) = map trim (split s comma)"
      using split_nonempty [of s comma] True ne
      by (cases "split s comma") (simp_all add: trim_ws_Cons)
    with Cons True show ?thesis by (simp add: trimStart_ws_Cons)
  next
    case False
    then show ?thesis by (simp add: trimStart_def)
  qed
qed

lemma map_trim_split_snoc_ws:
  assumes "is_ws a"
  shows "map trim (split (s @ [a]) comma) = map trim (split s comma)"
proof -
  have ne: "a \<noteq> comma" using assms comma_not_ws by auto
  have "split s comma = butlast (split s comma) @ [last (split s comma)]"
    using split_nonempty [of s comma] by simp
  then have "map trim (split s comma)
      = map trim (butlast (split s comma)) @ [trim (last (split s comma))]"
    by (metis list.simps(8,9) map_append)
  then show ?thesis using ne assms by (simp add: split_snoc trim_ws_snoc)
qed

lemma map_trim_split_trimEnd:
  "map trim (split (trimEnd s) comma) = map trim (split s comma)"
proof (induction s rule: rev_induct)
  case Nil
  then show ?case by (simp add: trimEnd_def)
next
  case (snoc a s)
  show ?case
  proof (cases "is_ws a")
    case True
    with snoc show ?thesis by (simp add: trimEnd_ws_snoc map_trim_split_snoc_ws)
  next
    case False
    then show ?thesis by (simp add: trimEnd_def)
  qed
qed

lemma map_trim_split_trim:
  "map trim (split (trim s) comma) = map trim (split s comma)"
  by (simp add: trim_def map_trim_split_trimEnd map_trim_split_trimStart)

section \<open>Properties of rounding\<close>

lemma bitlen_0: "bitlen 0 = 0"
  by (simp add: bitlen.simps)

lemma bitlen_pos: "0 < n \<Longrightarrow> bitlen n = Suc (bitlen (n div 2))"
  by (subst bitlen.simps) simp

lemma bitlen_numeral [simp]:
  "bitlen (numeral k) = Suc (bitlen (numeral k div 2))"
  by (rule bitlen_pos) simp

lemma bitlen_Suc_0: "bitlen (Suc 0) = 1"
  by (simp add: bitlen_pos bitlen_0)

lemma bitlen_1: "bitlen 1 = 1"
  using bitlen_Suc_0 by simp

lemma bitlen_upper: "n < 2 ^ bitlen n"
proof (induction n rule: bitlen.induct)
  case (1 n)
  show ?case
  proof (cases "n = 0")
    case True
    then show ?thesis by (simp add: bitlen_0)
  next
    case False
    with 1 have "n div 2 < 2 ^ bitlen (n div 2)" by simp
    then have "n < 2 * 2 ^ bitlen (n div 2)" by linarith
    with False show ?thesis by (simp add: bitlen_pos)
  qed
qed

lemma bitlen_lower: "0 < n \<Longrightarrow> 2 ^ (bitlen n - 1) \<le> n"
proof (induction n rule: bitlen.induct)
  case (1 n)
  show ?case
  proof (cases "n div 2 = 0")
    case True
    with 1 have "n = 1" by (simp add: div_eq_0_iff) 
    then show ?thesis by (simp add: bitlen_Suc_0)
  next
    case False
    with 1 have ih: "2 ^ (bitlen (n div 2) - 1) \<le> n div 2" by simp
    from False have "0 < bitlen (n div 2)" by (simp add: bitlen_pos)
    then have "bitlen n - 1 = Suc (bitlen (n div 2) - 1)"
      using 1(2) by (simp add: bitlen_pos)
    then have "2 ^ (bitlen n - 1) = 2 * 2 ^ (bitlen (n div 2) - 1)" by simp
    also have "\<dots> \<le> 2 * (n div 2)" using ih by simp
    also have "\<dots> \<le> n" by simp
    finally show ?thesis .
  qed
qed

lemma bitlen_le: "n < 2 ^ k \<Longrightarrow> bitlen n \<le> k"
proof (rule ccontr)
  assume b: "n < 2 ^ k" and "\<not> bitlen n \<le> k"
  then have k: "k \<le> bitlen n - 1" and pos: "0 < n"
    by (auto intro: Nat.gr0I simp: bitlen_0)
  have "(2::nat) ^ k \<le> 2 ^ (bitlen n - 1)" using k by (simp add: power_increasing)
  also have "\<dots> \<le> n" using pos by (rule bitlen_lower)
  finally show False using b by simp
qed

lemma roundMagnitude_step:
  assumes "0 < m" "quotient_of m = (p, q)" "ilog2 p q = e" "max (e - 52) (- 1074) = x"
    and "(if 0 \<le> x then roundTiesToEven p (q * 2 ^ nat x)
          else roundTiesToEven (p * 2 ^ nat (- x)) q) = n"
  shows "roundMagnitude m =
           (if pow2 1024 \<le> of_int n * pow2 x then None else Some (of_int n * pow2 x))"
  using assms by (auto simp: roundMagnitude_def Let_def split: if_splits)

lemma ilog2_nat:
  assumes "0 < n"
  shows "ilog2 (int n) 1 = int (bitlen n) - 1"
proof -
  have "0 < bitlen n" using assms by (simp add: bitlen_pos)
  moreover have "(2::int) ^ (bitlen n - 1) \<le> int n"
    using bitlen_lower [OF assms] by (metis of_nat_le_iff of_nat_numeral of_nat_power)
  ultimately show ?thesis
    by (simp add: ilog2_def bitlen_Suc_0 Let_def nat_diff_distrib')
qed

lemma roundMagnitude_nat:
  assumes "n < 2 ^ 53"
  shows "roundMagnitude (of_nat n) = Some (of_nat n)"
proof (cases "n = 0")
  case True
  then show ?thesis by (simp add: roundMagnitude_def)
next
  case False
  then have pos: "0 < n" by simp
  define k where "k = bitlen n - 1"
  have bl: "bitlen n = Suc k" using pos by (simp add: k_def bitlen_pos)
  have k52: "k \<le> 52" using bitlen_le [OF assms] bl by simp
  have q: "quotient_of (of_nat n) = (int n, 1)" by simp
  have e: "ilog2 (int n) 1 = int k" using ilog2_nat [OF pos] bl by simp
  have x: "max (int k - 52) (- 1074) = int k - 52" by simp
  have n: "(if 0 \<le> int k - 52 then roundTiesToEven (int n) (1 * 2 ^ nat (int k - 52))
            else roundTiesToEven (int n * 2 ^ nat (- (int k - 52))) 1)
           = int n * 2 ^ (52 - k)"
    using k52 by (auto simp: roundTiesToEven_def nat_diff_distrib')
  have val: "(of_int (int n * 2 ^ (52 - k)) :: rat) * pow2 (int k - 52) = of_nat n"
  proof (cases "k = 52")
    case True
    then show ?thesis by (simp add: pow2_def)
  next
    case False
    with k52 have "k < 52" by simp
    then show ?thesis by (simp add: pow2_def nat_diff_distrib')
  qed
  have "(of_nat n :: rat) < 2 ^ 53" using assms
    by (metis of_nat_less_iff of_nat_numeral of_nat_power)
  also have "\<dots> < pow2 1024" by (simp add: pow2_def)
  finally have small: "\<not> pow2 1024 \<le> (of_nat n :: rat)" by simp
  have "0 < (of_nat n :: rat)" using pos by simp
  then have "roundMagnitude (of_nat n) =
      (if pow2 1024 \<le> of_int (int n * 2 ^ (52 - k)) * pow2 (int k - 52) then None
       else Some (of_int (int n * 2 ^ (52 - k)) * pow2 (int k - 52)))"
    using q e x n by (rule roundMagnitude_step)
  then have "roundMagnitude (of_nat n) = (if pow2 1024 \<le> of_nat n then None else Some (of_nat n))"
    unfolding val .
  then show ?thesis using small by simp
qed

lemma quotient_of_coprime_eq:
  assumes "r = of_int p / of_int q" "0 < q" "coprime p q"
  shows "quotient_of r = (p, q)"
proof -
  have "r = Fract p q" using assms(1) by (simp add: Fract_of_int_quotient)
  then show ?thesis using assms(2,3) by (simp add: quotient_of_Fract normalize_stable)
qed

lemma roundMagnitude_numeral [simp]:
  "(numeral k :: nat) < 2 ^ 53 \<Longrightarrow> roundMagnitude (numeral k) = Some (numeral k)"
  using roundMagnitude_nat [of "numeral k"] by simp

lemma roundMagnitude_0 [simp]: "roundMagnitude 0 = Some 0"
  by (simp add: roundMagnitude_def)

lemma roundMagnitude_1 [simp]: "roundMagnitude 1 = Some 1"
  using roundMagnitude_nat [of 1] by simp

text \<open>
  Two facts that tie the definitions to what they stand for: \<open>ilog2\<close> is the binary
  exponent of the quotient, and \<open>roundTiesToEven\<close> is within one half of the quotient.
\<close>

lemma pow2_pos: "0 < pow2 k"
  by (simp add: pow2_def)

lemma pow2_add: "pow2 (j + k) = pow2 j * pow2 k"
proof -
  have "pow2 i = 2 powi i" for i
    by (simp add: pow2_def power_int_def field_simps)
  then show ?thesis by (simp add: power_int_add)
qed

lemma pow2_nat: "pow2 (int n) = 2 ^ n"
  by (simp add: pow2_def)

lemma pow2_Suc: "pow2 (k + 1) = 2 * pow2 k"
  using pow2_add [of k 1] by (simp add: pow2_def)

lemma bitlen_int_upper:
  assumes "0 < p"
  shows "(of_int p :: rat) < pow2 (int (bitlen (nat p)))"
proof -
  have "nat p < 2 ^ bitlen (nat p)" by (rule bitlen_upper)
  then have "int (nat p) < int (2 ^ bitlen (nat p))" by (simp only: of_nat_less_iff)
  then have "p < 2 ^ bitlen (nat p)" using assms by simp
  then have "(of_int p :: rat) < of_int (2 ^ bitlen (nat p))" by (simp only: of_int_less_iff)
  then show ?thesis by (simp add: pow2_nat)
qed

lemma bitlen_int_lower:
  assumes "0 < p"
  shows "pow2 (int (bitlen (nat p)) - 1) \<le> (of_int p :: rat)"
proof -
  have pos: "0 < bitlen (nat p)" using assms by (simp add: bitlen_pos)
  have "2 ^ (bitlen (nat p) - 1) \<le> nat p" using assms by (intro bitlen_lower) simp
  then have "int (2 ^ (bitlen (nat p) - 1)) \<le> int (nat p)" by (simp only: of_nat_le_iff)
  then have "2 ^ (bitlen (nat p) - 1) \<le> p" using assms by simp
  then have "(of_int (2 ^ (bitlen (nat p) - 1)) :: rat) \<le> of_int p" by (simp only: of_int_le_iff)
  then have "pow2 (int (bitlen (nat p) - 1)) \<le> (of_int p :: rat)" by (simp add: pow2_nat)
  moreover have "int (bitlen (nat p) - 1) = int (bitlen (nat p)) - 1" using pos by simp
  ultimately show ?thesis by simp
qed

lemma ilog2_cond:
  assumes "0 < q"
  shows "(if 0 \<le> k then q * 2 ^ nat k \<le> p else q \<le> p * 2 ^ nat (- k))
           = (pow2 k \<le> of_int p / of_int q)"
proof (cases "0 \<le> k")
  case True
  have qpos: "0 < (of_int q :: rat)" using assms by simp
  have "(q * 2 ^ nat k \<le> p) = ((of_int (q * 2 ^ nat k) :: rat) \<le> of_int p)"
    by (simp only: of_int_le_iff)
  also have "\<dots> = (pow2 k * of_int q \<le> (of_int p :: rat))"
    using True by (simp add: pow2_def mult.commute)
  also have "\<dots> = (pow2 k \<le> of_int p / of_int q)"
    using qpos by (simp only: pos_le_divide_eq)
  finally show ?thesis using True by simp
next
  case False
  have qpos: "0 < (of_int q :: rat)" using assms by simp
  have kpos: "0 < (2::rat) ^ nat (- k)" by simp
  have "(q \<le> p * 2 ^ nat (- k)) = ((of_int q :: rat) \<le> of_int (p * 2 ^ nat (- k)))"
    by (simp only: of_int_le_iff)
  also have "\<dots> = ((of_int q :: rat) \<le> of_int p * 2 ^ nat (- k))" by simp
  also have "\<dots> = (of_int q / 2 ^ nat (- k) \<le> (of_int p :: rat))"
    using kpos by (simp only: pos_divide_le_eq)
  also have "\<dots> = (pow2 k * of_int q \<le> (of_int p :: rat))"
    using False by (simp add: pow2_def)
  also have "\<dots> = (pow2 k \<le> of_int p / of_int q)"
    using qpos by (simp only: pos_le_divide_eq)
  finally show ?thesis using False by simp
qed

lemma ilog2_bounds:
  assumes "0 < p" "0 < q"
  shows "pow2 (ilog2 p q) \<le> of_int p / of_int q \<and> of_int p / of_int q < pow2 (ilog2 p q + 1)"
proof -
  define k where "k = int (bitlen (nat p)) - int (bitlen (nat q))"
  define r :: rat where "r = of_int p / of_int q"
  have qpos: "0 < (of_int q :: rat)" using assms by simp
  have up: "r < pow2 (k + 1)"
  proof -
    have "of_int p < pow2 (int (bitlen (nat p)))" using assms(1) by (rule bitlen_int_upper)
    also have "int (bitlen (nat p)) = (k + 1) + (int (bitlen (nat q)) - 1)"
      by (simp add: k_def)
    also have "pow2 \<dots> = pow2 (k + 1) * pow2 (int (bitlen (nat q)) - 1)"
      by (rule pow2_add)
    also have "\<dots> \<le> pow2 (k + 1) * of_int q"
      using bitlen_int_lower [OF assms(2)] pow2_pos [of "k + 1"] by simp
    finally have "of_int p < pow2 (k + 1) * of_int q" .
    then show ?thesis unfolding r_def using qpos by (simp only: pos_divide_less_eq)
  qed
  have lo: "pow2 (k - 1) < r"
  proof -
    have "pow2 (k - 1) * of_int q < pow2 (k - 1) * pow2 (int (bitlen (nat q)))"
      using bitlen_int_upper [OF assms(2)] pow2_pos [of "k - 1"] by simp
    also have "\<dots> = pow2 ((k - 1) + int (bitlen (nat q)))"
      by (rule pow2_add [symmetric])
    also have "(k - 1) + int (bitlen (nat q)) = int (bitlen (nat p)) - 1"
      by (simp add: k_def)
    also have "pow2 \<dots> \<le> of_int p" using assms(1) by (rule bitlen_int_lower)
    finally have "pow2 (k - 1) * of_int q < of_int p" .
    then show ?thesis unfolding r_def using qpos by (simp only: pos_less_divide_eq)
  qed
  have e: "ilog2 p q = (if pow2 k \<le> r then k else k - 1)"
    unfolding ilog2_def Let_def k_def [symmetric] r_def ilog2_cond [OF assms(2)] ..
  show ?thesis
  proof (cases "pow2 k \<le> r")
    case True
    with e up show ?thesis by (simp add: r_def)
  next
    case False
    then have "ilog2 p q = k - 1" using e by simp
    moreover have "pow2 (k - 1) \<le> r" using lo by simp
    moreover have "r < pow2 k" using False by simp
    ultimately show ?thesis by (simp add: r_def)
  qed
qed

lemma roundTiesToEven_nearest:
  assumes "0 < den"
  shows "\<bar>of_int (roundTiesToEven num den) - (of_int num / of_int den :: rat)\<bar> \<le> 1 / 2"
proof -
  define n where "n = num div den"
  define r where "r = num mod den"
  have num: "num = n * den + r" by (simp add: n_def r_def)
  have r: "0 \<le> r" "r < den" using assms by (simp_all add: r_def)
  have dpos: "0 < (of_int den :: rat)" using assms by simp
  have q: "(of_int num / of_int den :: rat) = of_int n + of_int r / of_int den"
    using dpos by (simp add: num field_simps)
  have f0: "0 \<le> (of_int r / of_int den :: rat)" using r dpos by simp
  have f1: "(of_int r / of_int den :: rat) < 1" using r dpos by simp
  have half: "(2 * r < den) = ((of_int r / of_int den :: rat) < 1 / 2)"
  proof -
    have "(2 * r < den) = ((of_int (2 * r) :: rat) < of_int den)" by (simp only: of_int_less_iff)
    also have "\<dots> = ((of_int r / of_int den :: rat) < 1 / 2)"
      using dpos by (simp add: field_simps)
    finally show ?thesis .
  qed
  have half': "(den < 2 * r) = (1 / 2 < (of_int r / of_int den :: rat))"
  proof -
    have "(den < 2 * r) = ((of_int den :: rat) < of_int (2 * r))" by (simp only: of_int_less_iff)
    also have "\<dots> = (1 / 2 < (of_int r / of_int den :: rat))"
      using dpos by (simp add: field_simps)
    finally show ?thesis .
  qed
  show ?thesis
    unfolding roundTiesToEven_def Let_def n_def [symmetric] r_def [symmetric] q
    using f0 f1 half half' by (auto simp: abs_if)
qed

section \<open>Properties of the scan for candidates\<close>

lemma pushParsed_eq: "pushParsed acc ms = acc @ List.map_filter parsePoint ms"
  by (induction ms arbitrary: acc) (auto simp: List.map_filter_simps split: option.splits)

lemma pointMatches_skip: "lparen \<notin> set g \<Longrightarrow> pointMatches (g @ t) = pointMatches t"
  by (induction g) (auto simp: Let_def)

lemma pointMatches_none: "lparen \<notin> set g \<Longrightarrow> pointMatches g = []"
  using pointMatches_skip [of g "[]"] by simp

lemma pointMatches_unclosed: "rparen \<notin> set g \<Longrightarrow> pointMatches g = []"
proof (induction g)
  case Nil
  then show ?case by simp
next
  case (Cons a g)
  then have "dropWhile (\<lambda>d. d \<noteq> rparen) g = []" by (auto simp: dropWhile_eq_Nil_conv)
  with Cons show ?case by (simp add: Let_def)
qed

lemma pointMatches_match:
  assumes "body \<noteq> []" "rparen \<notin> set body"
  shows "pointMatches (lparen # body @ rparen # t) = (lparen # body @ [rparen]) # pointMatches t"
proof -
  have p: "\<And>x. x \<in> set body \<Longrightarrow> x \<noteq> rparen" using assms(2) by auto
  have "takeWhile (\<lambda>d. d \<noteq> rparen) (body @ rparen # t) = body"
    using p by (simp add: takeWhile_append2)
  moreover have "dropWhile (\<lambda>d. d \<noteq> rparen) (body @ rparen # t) = rparen # t"
    using p by (simp add: dropWhile_append2)
  ultimately show ?thesis using assms(1) by (simp add: Let_def)
qed

lemma pointMatches_shape:
  "m \<in> set (pointMatches s) \<Longrightarrow>
     \<exists>body. m = lparen # body @ [rparen] \<and> body \<noteq> [] \<and> rparen \<notin> set body"
proof (induction s rule: pointMatches.induct)
  case 1
  then show ?case by simp
next
  case (2 c cs)
  define body where "body = takeWhile (\<lambda>d. d \<noteq> rparen) cs"
  define rest where "rest = dropWhile (\<lambda>d. d \<noteq> rparen) cs"
  show ?case
  proof (cases "c = lparen \<and> body \<noteq> [] \<and> rest \<noteq> []")
    case True
    then have pm: "pointMatches (c # cs) = (c # body @ [rparen]) # pointMatches (tl rest)"
      by (simp add: body_def rest_def Let_def)
    have nr: "rparen \<notin> set body"
      unfolding body_def by (auto dest: set_takeWhileD)
    from "2.prems" pm have "m = c # body @ [rparen] \<or> m \<in> set (pointMatches (tl rest))"
      by simp
    then show ?thesis
    proof
      assume "m = c # body @ [rparen]"
      with True nr show ?thesis by auto
    next
      assume "m \<in> set (pointMatches (tl rest))"
      with "2.IH"(1) [OF body_def rest_def True] show ?thesis by simp
    qed
  next
    case False
    then have pm: "pointMatches (c # cs) = pointMatches cs"
      by (auto simp: body_def rest_def Let_def)
    with "2.prems" "2.IH"(2) [OF body_def rest_def False] show ?thesis by simp
  qed
qed

lemma pointMatches_interleave:
  "\<exists>gaps. length gaps = Suc (length (pointMatches s)) \<and> s = interleave gaps (pointMatches s)"
proof (induction s rule: pointMatches.induct)
  case 1
  have "length [[]::nat list] = Suc (length (pointMatches [])) \<and> [] = interleave [[]] (pointMatches [])"
    by simp
  then show ?case by blast
next
  case (2 c cs)
  define body where "body = takeWhile (\<lambda>d. d \<noteq> rparen) cs"
  define rest where "rest = dropWhile (\<lambda>d. d \<noteq> rparen) cs"
  show ?case
  proof (cases "c = lparen \<and> body \<noteq> [] \<and> rest \<noteq> []")
    case True
    then have pm: "pointMatches (c # cs) = (c # body @ [rparen]) # pointMatches (tl rest)"
      by (simp add: body_def rest_def Let_def)
    from True have "\<not> (hd rest \<noteq> rparen)"
      unfolding rest_def by (metis (mono_tags, lifting) hd_dropWhile)
    with True have rest: "rest = rparen # tl rest" by (cases rest) auto
    have "cs = body @ rest" by (simp add: body_def rest_def)
    with rest have cs: "c # cs = (c # body @ [rparen]) @ tl rest" by (metis append.assoc append_Cons append_Nil)
    from "2.IH"(1) [OF body_def rest_def True] obtain gaps where
      g: "length gaps = Suc (length (pointMatches (tl rest)))"
         "tl rest = interleave gaps (pointMatches (tl rest))" by blast
    have "length ([] # gaps) = Suc (length (pointMatches (c # cs)))" using g(1) pm by simp
    moreover have "c # cs = interleave ([] # gaps) (pointMatches (c # cs))"
      using cs g(2) pm by simp
    ultimately show ?thesis by blast
  next
    case False
    then have pm: "pointMatches (c # cs) = pointMatches cs"
      by (auto simp: body_def rest_def Let_def)
    from "2.IH"(2) [OF body_def rest_def False] obtain gaps where
      g: "length gaps = Suc (length (pointMatches cs))"
         "cs = interleave gaps (pointMatches cs)" by blast
    then obtain g0 gs where gaps: "gaps = g0 # gs" by (cases gaps) auto
    have "c # cs = interleave ((c # g0) # gs) (pointMatches (c # cs))"
      unfolding pm using g(2) gaps by (cases "pointMatches cs") simp_all
    moreover have "length ((c # g0) # gs) = Suc (length (pointMatches (c # cs)))"
      using g(1) gaps pm by simp
    ultimately show ?thesis by blast
  qed
qed

section \<open>Properties of the parsers\<close>

lemmas eval_defs = js_def trim_def trimStart_def trimEnd_def is_ws_def slice_inner
  comma_def lparen_def rparen_def lbracket_def startsWith_def is_digit_def digitsValue_def
  exponentPart_def scale10_def unsignedLiteral_def parseFloat_def parsePoint_def isNaN_def
  toNumber_def Let_def

lemma parsePoint_parts:
  "parsePoint s =
     (case split (slice s 1 (- 1)) comma of
        [a, b] \<Rightarrow>
          if isNaN (parseFloat (trim a)) \<or> isNaN (parseFloat (trim b)) then None
          else Some (parseFloat (trim a), parseFloat (trim b))
      | _ \<Rightarrow> None)"
proof -
  define ps where "ps = split (slice s 1 (- 1)) comma"
  have m: "map trim (split (trim (slice s 1 (- 1))) comma) = map trim ps"
    unfolding ps_def by (rule map_trim_split_trim)
  show ?thesis
    unfolding parsePoint_def Let_def m ps_def [symmetric]
    by (cases ps; cases "tl ps"; cases "tl (tl ps)") auto
qed

lemma parsePoint_not_NaN:
  "parsePoint s = Some (x, y) \<Longrightarrow> \<not> isNaN x \<and> \<not> isNaN y"
  by (auto simp: parsePoint_def Let_def split: if_splits)

lemma parsePoints_bracket:
  assumes "startsWith (trim s) [lbracket]"
  shows "parsePoints s =
           (let pts = List.map_filter parsePoint (pointMatches (trim (slice (trim s) 1 (- 1))))
            in if pts = [] then Inl (Error (pointsMessage (trim s))) else Inr pts)"
  using assms by (simp add: parsePoints_def Let_def pushParsed_eq)

lemma parsePoints_paren:
  assumes "startsWith (trim s) [lparen]"
  shows "parsePoints s =
           (case parsePoint (trim s) of
              None \<Rightarrow> Inl (Error (pointsMessage (trim s)))
            | Some p \<Rightarrow> Inr [p])"
proof -
  from assms have "\<not> startsWith (trim s) [lbracket]"
    by (auto simp: startsWith_def lparen_def lbracket_def)
  with assms show ?thesis
    by (simp add: parsePoints_def Let_def split: option.splits)
qed

lemma parsePoints_other:
  assumes "\<not> startsWith (trim s) [lbracket]" "\<not> startsWith (trim s) [lparen]"
  shows "parsePoints s = Inl (Error (pointsMessage (trim s)))"
  using assms by (simp add: parsePoints_def Let_def)

lemma parsePoints_Inl:
  "parsePoints s = Inl e \<Longrightarrow> e = Error (pointsMessage (trim s))"
  by (auto simp: parsePoints_def Let_def split: if_splits)

lemma parsePoints_Inr_nonempty:
  "parsePoints s = Inr pts \<Longrightarrow> pts \<noteq> []"
  by (auto simp: parsePoints_def Let_def split: if_splits)

lemma map_filter_Nil_iff:
  "(List.map_filter f xs = []) = (\<forall>x \<in> set xs. f x = None)"
  by (induction xs) (auto simp: List.map_filter_simps split: option.splits)

lemma map_filter_conv:
  "List.map_filter f xs = map the (filter (\<lambda>r. r \<noteq> None) (map f xs))"
  by (induction xs) (auto simp: List.map_filter_simps split: option.splits)

lemma length_map_filter:
  "length (List.map_filter f xs) = length (filter (\<lambda>x. f x \<noteq> None) xs)"
  by (induction xs) (auto simp: List.map_filter_simps split: option.splits)

lemma map_filter_skip:
  "f bad = None \<Longrightarrow> List.map_filter f (ms @ bad # ms') = List.map_filter f (ms @ ms')"
  by (induction ms) (auto simp: List.map_filter_simps split: option.splits)

lemma trim_empty: "trim [] = []"
  by (simp add: trim_def trimStart_def trimEnd_def)

lemma parseCenter_Inr:
  "(parseCenter s = Inr p) = (startsWith s [lparen] \<and> parsePoint s = Some p)"
  by (auto simp: parseCenter_def split: option.splits if_splits)

lemma parseCenter_Inl:
  "parseCenter s = Inl e \<Longrightarrow> e = Error (centerMessage s)"
  by (auto simp: parseCenter_def split: option.splits if_splits)

lemma parseCenter_fails:
  "\<not> (startsWith s [lparen] \<and> parsePoint s \<noteq> None) \<Longrightarrow>
     parseCenter s = Inl (Error (centerMessage s))"
  by (auto simp: parseCenter_def split: option.splits if_splits)

text \<open>
  \<^verbatim>\<open>parseFloat\<close> returns NaN exactly when no prefix of its input, leading white space
  skipped, is a numeric literal.
\<close>

lemmas literal_defs = isDecimalDigits_def isExponentPart_def isMantissa_def isUnsignedLiteral_def
  isNumericLiteral_def hasNumericPrefix_def


lemma list_ex_upt: "list_ex P [0..<Suc n] = (\<exists>k\<le>n. P k)"
  by (auto simp add: list_ex_iff less_Suc_eq_le simp del: upt_Suc)

lemma toNumber_not_NaN: "toNumber s m \<noteq> NaN"
  by (simp add: toNumber_def split: option.splits)

lemma dot_not_digit: "\<not> is_digit 0x2E"
  by (simp add: is_digit_def)

lemma unsignedLiteral_NaN_iff:
  "(unsignedLiteral s u = NaN) =
     (\<not> startsWith u (js ''Infinity'') \<and> takeWhile is_digit u = [] \<and>
      \<not> (startsWith (dropWhile is_digit u) (js ''.'') \<and>
         takeWhile is_digit (tl (dropWhile is_digit u)) \<noteq> []))"
  by (auto simp: unsignedLiteral_def Let_def toNumber_not_NaN)

lemma unsignedLiteral_digit:
  assumes "is_digit d"
  shows "unsignedLiteral s (d # r) \<noteq> NaN"
  using assms by (simp add: unsignedLiteral_NaN_iff)

lemma unsignedLiteral_dot_digit:
  assumes "is_digit d"
  shows "unsignedLiteral s (0x2E # d # r) \<noteq> NaN"
  using assms dot_not_digit by (simp add: unsignedLiteral_NaN_iff startsWith_def js_def)

lemma unsignedLiteral_Infinity:
  "unsignedLiteral s (js ''Infinity'' @ r) \<noteq> NaN"
  by (simp add: unsignedLiteral_NaN_iff startsWith_def js_def)

lemma isMantissa_start:
  assumes "isMantissa m"
  shows "(\<exists>d r. m = d # r \<and> is_digit d) \<or> (\<exists>d r. m = 0x2E # d # r \<and> is_digit d)"
proof -
  from assms obtain i where i: "i \<le> length m" "list_all is_digit (take i m)"
    and c: "(case drop i m of [] \<Rightarrow> 0 < i
             | c # fs \<Rightarrow> c = 0x2E \<and> list_all is_digit fs \<and> (0 < i \<or> fs \<noteq> []))"
    unfolding isMantissa_def list_ex_upt by blast
  show ?thesis
  proof (cases "0 < i")
    case True
    with i(1) obtain d r where m: "m = d # r" by (cases m) auto
    from True obtain k where "i = Suc k" by (cases i) auto
    with i(2) m have "is_digit d" by simp
    with m show ?thesis by blast
  next
    case False
    then have "i = 0" by simp
    with c obtain fs where m: "m = 0x2E # fs" "list_all is_digit fs" "fs \<noteq> []"
      by (auto split: list.splits)
    then obtain d r where "fs = d # r" by (cases fs) auto
    with m show ?thesis by auto
  qed
qed

lemma isUnsignedLiteral_start:
  assumes "isUnsignedLiteral p"
  shows "p = js ''Infinity'' \<or> (\<exists>d r. p = d # r \<and> is_digit d) \<or>
         (\<exists>d r. p = 0x2E # d # r \<and> is_digit d)"
proof (cases "p = js ''Infinity''")
  case True
  then show ?thesis by simp
next
  case False
  with assms obtain j where "isMantissa (take j p)"
    unfolding isUnsignedLiteral_def list_ex_upt by blast
  from isMantissa_start [OF this] show ?thesis
  proof
    assume "\<exists>d r. take j p = d # r \<and> is_digit d"
    then obtain d r where t: "take j p = d # r" "is_digit d" by blast
    have "p = take j p @ drop j p" by simp
    then have "p = d # (r @ drop j p)" unfolding t by simp
    with t(2) show ?thesis by blast
  next
    assume "\<exists>d r. take j p = 0x2E # d # r \<and> is_digit d"
    then obtain d r where t: "take j p = 0x2E # d # r" "is_digit d" by blast
    have "p = take j p @ drop j p" by simp
    then have "p = 0x2E # d # (r @ drop j p)" unfolding t by simp
    with t(2) show ?thesis by blast
  qed
qed

lemma unsignedLiteral_of_prefix:
  assumes "isUnsignedLiteral (take n u)"
  shows "unsignedLiteral s u \<noteq> NaN"
proof -
  have u: "u = take n u @ drop n u" by simp
  from isUnsignedLiteral_start [OF assms] consider
    (inf) "take n u = js ''Infinity''"
    | (dig) d r where "take n u = d # r" "is_digit d"
    | (dot) d r where "take n u = 0x2E # d # r" "is_digit d"
    by blast
  then show ?thesis
  proof cases
    case inf
    then have "u = js ''Infinity'' @ drop n u" using u by simp
    then show ?thesis using unsignedLiteral_Infinity by metis
  next
    case dig
    then have "u = d # (r @ drop n u)" using u by simp
    then show ?thesis using unsignedLiteral_digit [OF dig(2)] by metis
  next
    case dot
    then have "u = 0x2E # d # (r @ drop n u)" using u by simp
    then show ?thesis using unsignedLiteral_dot_digit [OF dot(2)] by metis
  qed
qed

lemma isUnsignedLiteral_digits:
  assumes "ds \<noteq> []" "list_all is_digit ds"
  shows "isUnsignedLiteral ds"
proof -
  have "isMantissa ds"
    unfolding isMantissa_def list_ex_upt
    using assms by (intro exI [of _ "length ds"]) simp
  then show ?thesis
    unfolding isUnsignedLiteral_def list_ex_upt
    by (intro disjI2 exI [of _ "length ds"]) simp
qed

lemma isUnsignedLiteral_dot_digits:
  assumes "fs \<noteq> []" "list_all is_digit fs"
  shows "isUnsignedLiteral (0x2E # fs)"
proof -
  have "isMantissa (0x2E # fs)"
    unfolding isMantissa_def list_ex_upt
    using assms by (intro exI [of _ 0]) simp
  then show ?thesis
    unfolding isUnsignedLiteral_def list_ex_upt
    by (intro disjI2 exI [of _ "length (0x2E # fs)"]) simp
qed

lemma list_all_takeWhile: "list_all P (takeWhile P xs)"
  by (induction xs) auto

lemma prefix_of_unsignedLiteral:
  assumes "unsignedLiteral s u \<noteq> NaN"
  shows "\<exists>n\<le>length u. isUnsignedLiteral (take n u)"
proof -
  from assms consider
    (inf) "startsWith u (js ''Infinity'')"
    | (dig) "takeWhile is_digit u \<noteq> []"
    | (dot) "takeWhile is_digit u = []" "startsWith (dropWhile is_digit u) (js ''.'')"
        "takeWhile is_digit (tl (dropWhile is_digit u)) \<noteq> []"
    unfolding unsignedLiteral_NaN_iff by blast
  then show ?thesis
  proof cases
    case inf
    define k where "k = length (js ''Infinity'')"
    from inf have t: "take k u = js ''Infinity''" unfolding startsWith_def k_def .
    then have "length (take k u) = k" unfolding k_def by simp
    then have "k \<le> length u" by simp
    moreover have "isUnsignedLiteral (take k u)" unfolding t by (simp add: isUnsignedLiteral_def)
    ultimately show ?thesis by blast
  next
    case dig
    define ip where "ip = takeWhile is_digit u"
    have "take (length ip) u = ip" unfolding ip_def by (rule takeWhile_eq_take [symmetric])
    moreover have "isUnsignedLiteral ip"
      using dig unfolding ip_def by (intro isUnsignedLiteral_digits list_all_takeWhile)
    moreover have "length ip \<le> length u" unfolding ip_def by (rule length_takeWhile_le)
    ultimately show ?thesis by metis
  next
    case dot
    from dot(1) have d: "dropWhile is_digit u = u"
      by (metis takeWhile_dropWhile_id append_Nil)
    with dot(2) obtain t where u: "u = 0x2E # t"
      by (cases u) (auto simp: startsWith_def js_def)
    define fp where "fp = takeWhile is_digit t"
    have fp: "fp \<noteq> []" using dot(3) unfolding d unfolding u fp_def by simp
    have "take (length fp) t = fp" unfolding fp_def by (rule takeWhile_eq_take [symmetric])
    then have "take (Suc (length fp)) u = 0x2E # fp" unfolding u by simp
    moreover have "isUnsignedLiteral (0x2E # fp)"
      using fp unfolding fp_def by (intro isUnsignedLiteral_dot_digits list_all_takeWhile)
    moreover have "Suc (length fp) \<le> length u"
      unfolding u fp_def using length_takeWhile_le [of is_digit t] by simp
    ultimately show ?thesis by metis
  qed
qed

lemma unsignedLiteral_NaN_prefix:
  "(unsignedLiteral s u \<noteq> NaN) = (\<exists>n\<le>length u. isUnsignedLiteral (take n u))"
  using prefix_of_unsignedLiteral unsignedLiteral_of_prefix by blast

lemma isUnsignedLiteral_Nil: "\<not> isUnsignedLiteral []"
  by (simp add: isUnsignedLiteral_def isMantissa_def js_def)

lemma isUnsignedLiteral_sign:
  assumes "c = 0x2B \<or> c = 0x2D"
  shows "\<not> isUnsignedLiteral (c # u)"
proof
  assume "isUnsignedLiteral (c # u)"
  from isUnsignedLiteral_start [OF this] assms show False
    by (auto simp: js_def is_digit_def)
qed

lemma hasNumericPrefix_sign:
  assumes "c = 0x2B \<or> c = 0x2D"
  shows "hasNumericPrefix (c # u) = (\<exists>n\<le>length u. isUnsignedLiteral (take n u))"
proof
  assume "hasNumericPrefix (c # u)"
  then obtain n where n: "n \<le> length (c # u)" "isNumericLiteral (take n (c # u))"
    unfolding hasNumericPrefix_def list_ex_upt by blast
  then obtain k where k: "n = Suc k" by (cases n) (auto simp: isNumericLiteral_def)
  with n assms have "k \<le> length u" "isUnsignedLiteral (take k u)"
    by (auto simp: isNumericLiteral_def)
  then show "\<exists>n\<le>length u. isUnsignedLiteral (take n u)" by blast
next
  assume "\<exists>n\<le>length u. isUnsignedLiteral (take n u)"
  then obtain k where "k \<le> length u" "isUnsignedLiteral (take k u)" by blast
  with assms have "Suc k \<le> length (c # u)" "isNumericLiteral (take (Suc k) (c # u))"
    by (auto simp: isNumericLiteral_def)
  then show "hasNumericPrefix (c # u)"
    unfolding hasNumericPrefix_def list_ex_upt by blast
qed

lemma hasNumericPrefix_unsigned:
  assumes "\<not> (c = 0x2B \<or> c = 0x2D)"
  shows "hasNumericPrefix (c # u) = (\<exists>n\<le>length (c # u). isUnsignedLiteral (take n (c # u)))"
proof
  assume "hasNumericPrefix (c # u)"
  then obtain n where n: "n \<le> length (c # u)" "isNumericLiteral (take n (c # u))"
    unfolding hasNumericPrefix_def list_ex_upt by blast
  then obtain k where k: "n = Suc k" by (cases n) (auto simp: isNumericLiteral_def)
  with n assms have "isUnsignedLiteral (take n (c # u))"
    by (auto simp: isNumericLiteral_def)
  with n(1) show "\<exists>n\<le>length (c # u). isUnsignedLiteral (take n (c # u))" by blast
next
  assume "\<exists>n\<le>length (c # u). isUnsignedLiteral (take n (c # u))"
  then obtain n where n: "n \<le> length (c # u)" "isUnsignedLiteral (take n (c # u))" by blast
  then obtain k where k: "n = Suc k" by (cases n) (auto simp: isUnsignedLiteral_Nil)
  with n assms have "isNumericLiteral (take n (c # u))"
    by (auto simp: isNumericLiteral_def)
  with n(1) show "hasNumericPrefix (c # u)"
    unfolding hasNumericPrefix_def list_ex_upt by blast
qed

lemma parseFloat_NaN_iff:
  "isNaN (parseFloat t) = (\<not> hasNumericPrefix (trimStart t))"
proof (cases "trimStart t")
  case Nil
  then show ?thesis
    by (simp add: parseFloat_def isNaN_def hasNumericPrefix_def isNumericLiteral_def)
next
  case (Cons c u)
  have nan: "isNaN v = (v = NaN)" for v by (cases v) (simp_all add: isNaN_def)
  show ?thesis
  proof (cases "c = 0x2B \<or> c = 0x2D")
    case True
    then have "parseFloat t = unsignedLiteral (c = 0x2D) u"
      by (auto simp: parseFloat_def Cons)
    then show ?thesis
      unfolding Cons nan hasNumericPrefix_sign [OF True]
      using unsignedLiteral_NaN_prefix [of "c = 0x2D" u] by auto
  next
    case False
    then have "parseFloat t = unsignedLiteral False (c # u)"
      by (auto simp: parseFloat_def Cons)
    then show ?thesis
      unfolding Cons nan hasNumericPrefix_unsigned [OF False]
      using unsignedLiteral_NaN_prefix [of False "c # u"] by auto
  qed
qed

lemma trimEnd_Cons_not_ws:
  assumes "\<not> is_ws x"
  shows "trimEnd (x # xs) = x # trimEnd xs"
  using assms by (simp add: trimEnd_def dropWhile_append)

lemma trimStart_trim: "trimStart (trim s) = trim s"
proof (cases "trimStart s")
  case Nil
  show ?thesis unfolding trim_def Nil by (simp add: trimStart_def trimEnd_def)
next
  case (Cons x xs)
  then have "\<not> is_ws x"
    unfolding trimStart_def by (metis hd_dropWhile list.sel(1) list.distinct(1))
  then show ?thesis
    by (simp add: trim_def Cons trimEnd_Cons_not_ws) (simp add: trimStart_def)
qed

lemma parseFloat_trim_NaN_iff:
  "isNaN (parseFloat (trim a)) = (\<not> hasNumericPrefix (trim a))"
  by (simp add: parseFloat_NaN_iff trimStart_trim)

lemma isNumericLiteral_prefix: "isNumericLiteral p \<Longrightarrow> hasNumericPrefix p"
  unfolding hasNumericPrefix_def list_ex_upt
  by (intro exI [of _ "length p"]) simp

lemma roundMagnitude_quarter: "roundMagnitude (1 / 4) = Some (1 / 4)"
proof -
  have "coprime (1::int) 4" by simp
  then have q: "quotient_of (1 / 4) = (1, 4)"
    by (intro quotient_of_coprime_eq) simp_all
  show ?thesis
    by (subst roundMagnitude_step [where p = 1 and q = 4 and e = "- 2" and x = "- 54"
          and n = 4503599627370496])
       (simp_all add: q ilog2_def bitlen_0 bitlen_Suc_0 roundTiesToEven_def pow2_def)
qed

section \<open>Claims about the parsers\<close>

text \<open>
  C3, as the claim states it, fails. \<^verbatim>\<open>parseFloat\<close> reads a numeric prefix and ignores
  what follows it. The interior of \<^verbatim>\<open>(50,96abc)\<close> has the two parts \<^verbatim>\<open>50\<close> and
  \<^verbatim>\<open>96abc\<close>; the second is not a numeric literal, and \<^verbatim>\<open>parsePoint\<close> returns the point
  (50, 96).
\<close>

theorem parsePoint_trailing_text_counterexample:
  "split (slice (js ''(50,96abc)'') 1 (- 1)) comma = [js ''50'', js ''96abc''] \<and>
   trim (js ''96abc'') = js ''96abc'' \<and>
   \<not> isNumericLiteral (js ''96abc'') \<and>
   parsePoint (js ''(50,96abc)'') = Some (Finite False 50, Finite False 96)"
proof -
  have a: "split (slice (js ''(50,96abc)'') 1 (- 1)) comma = [js ''50'', js ''96abc'']"
    by (simp add: eval_defs)
  have b: "trim (js ''96abc'') = js ''96abc''" by (simp add: eval_defs)
  have c: "\<not> isNumericLiteral (js ''96abc'')"
    by (simp add: literal_defs js_def is_digit_def)
  have d: "parsePoint (js ''(50,96abc)'') = Some (Finite False 50, Finite False 96)"
    by (simp add: eval_defs)
  from a b c d show ?thesis by blast
qed

text \<open>
  C3, amended. \<^verbatim>\<open>parsePoint\<close> returns a point exactly when the input without its first
  and last code unit, split on commas, has exactly two parts and each part, trimmed of
  white space, has a numeric prefix: it begins with a numeric literal, and what follows
  the literal is ignored. The point then holds what \<^verbatim>\<open>parseFloat\<close> reads from the two
  parts, in that order. Otherwise \<^verbatim>\<open>parsePoint\<close> returns \<^verbatim>\<open>null\<close>. In particular it
  returns a point when both trimmed parts are numeric literals. The examples of the
  specification follow.
\<close>

theorem parsePoint_result:
  "((parsePoint s = Some (x, y)) =
      (\<exists>a b. split (slice s 1 (- 1)) comma = [a, b] \<and>
             hasNumericPrefix (trim a) \<and> hasNumericPrefix (trim b) \<and>
             x = parseFloat (trim a) \<and> y = parseFloat (trim b))) \<and>
   ((parsePoint s = None) =
      (\<nexists>a b. split (slice s 1 (- 1)) comma = [a, b] \<and>
             hasNumericPrefix (trim a) \<and> hasNumericPrefix (trim b))) \<and>
   (split (slice s 1 (- 1)) comma = [a, b] \<and>
    isNumericLiteral (trim a) \<and> isNumericLiteral (trim b) \<longrightarrow>
      parsePoint s = Some (parseFloat (trim a), parseFloat (trim b))) \<and>
   parsePoint (js ''(50,96)'') = Some (Finite False 50, Finite False 96) \<and>
   parsePoint (js ''( 50 , 96 )'') = Some (Finite False 50, Finite False 96) \<and>
   parsePoint (js ''(50,abc)'') = None \<and>
   parsePoint (js ''(50)'') = None \<and>
   parsePoint (js ''(50,96,10)'') = None \<and>
   parsePoint (js ''invalid'') = None"
proof -
  have iff: "(parsePoint s = Some (x, y)) =
      (\<exists>a b. split (slice s 1 (- 1)) comma = [a, b] \<and>
             hasNumericPrefix (trim a) \<and> hasNumericPrefix (trim b) \<and>
             x = parseFloat (trim a) \<and> y = parseFloat (trim b))"
    unfolding parsePoint_parts [of s]
    by (auto simp: parseFloat_trim_NaN_iff split: list.splits)
  have none: "(parsePoint s = None) =
      (\<nexists>a b. split (slice s 1 (- 1)) comma = [a, b] \<and>
             hasNumericPrefix (trim a) \<and> hasNumericPrefix (trim b))"
    unfolding parsePoint_parts [of s]
    by (auto simp: parseFloat_trim_NaN_iff split: list.splits)
  have lit: "split (slice s 1 (- 1)) comma = [a, b] \<and>
    isNumericLiteral (trim a) \<and> isNumericLiteral (trim b) \<longrightarrow>
      parsePoint s = Some (parseFloat (trim a), parseFloat (trim b))"
    unfolding parsePoint_parts [of s]
    by (auto simp: parseFloat_trim_NaN_iff isNumericLiteral_prefix)
  have e1: "parsePoint (js ''(50,96)'') = Some (Finite False 50, Finite False 96)"
    by (simp add: eval_defs)
  have e2: "parsePoint (js ''( 50 , 96 )'') = Some (Finite False 50, Finite False 96)"
    by (simp add: eval_defs)
  have e3: "parsePoint (js ''(50,abc)'') = None" by (simp add: eval_defs)
  have e4: "parsePoint (js ''(50)'') = None" by (simp add: eval_defs)
  have e5: "parsePoint (js ''(50,96,10)'') = None" by (simp add: eval_defs)
  have e6: "parsePoint (js ''invalid'') = None" by (simp add: eval_defs)
  from iff none lit e1 e2 e3 e4 e5 e6 show ?thesis by blast
qed

theorem parsePoint_result_witness:
  "split (slice (js ''( -1.5e2 , .25 )'') 1 (- 1)) comma = [js '' -1.5e2 '', js '' .25 ''] \<and>
   isNumericLiteral (trim (js '' -1.5e2 '')) \<and> isNumericLiteral (trim (js '' .25 '')) \<and>
   parsePoint (js ''( -1.5e2 , .25 )'') =
     Some (parseFloat (trim (js '' -1.5e2 '')), parseFloat (trim (js '' .25 ''))) \<and>
   parseFloat (trim (js '' -1.5e2 '')) = Finite True 150 \<and>
   parseFloat (trim (js '' .25 '')) = Finite False (1 / 4)"
proof -
  have a: "split (slice (js ''( -1.5e2 , .25 )'') 1 (- 1)) comma = [js '' -1.5e2 '', js '' .25 '']"
    by (simp add: eval_defs)
  have b: "isNumericLiteral (trim (js '' -1.5e2 '')) \<and> isNumericLiteral (trim (js '' .25 ''))"
    by (simp add: literal_defs js_def is_digit_def trim_def trimStart_def trimEnd_def is_ws_def)
  have c: "parseFloat (trim (js '' -1.5e2 '')) = Finite True 150"
    by (simp add: eval_defs)
  have d: "parseFloat (trim (js '' .25 '')) = Finite False (1 / 4)"
    using roundMagnitude_quarter by (simp add: eval_defs)
  from parsePoint_result [of "js ''( -1.5e2 , .25 )''" _ _ "js '' -1.5e2 ''" "js '' .25 ''"] a b c d
  show ?thesis by blast
qed

text \<open>
  C9. \<^verbatim>\<open>parsePoint\<close> drops the first and the last code unit of its input whatever they
  are: the result does not depend on them. So \<^verbatim>\<open>x50,96y\<close> gives the point (50, 96) and
  \<^verbatim>\<open>50,96!\<close> gives the point (0, 96), neither input being enclosed in parentheses.
\<close>

theorem parsePoint_drops_first_and_last:
  "parsePoint (a # body @ [b]) = parsePoint (c # body @ [d]) \<and>
   parsePoint (js ''x50,96y'') = Some (Finite False 50, Finite False 96) \<and>
   parsePoint (js ''50,96!'') = Some (Finite False 0, Finite False 96)"
proof -
  have "parsePoint (a # body @ [b]) = parsePoint (c # body @ [d])"
    by (simp add: parsePoint_def slice_inner)
  moreover have "parsePoint (js ''x50,96y'') = Some (Finite False 50, Finite False 96)"
    by (simp add: eval_defs)
  moreover have "parsePoint (js ''50,96!'') = Some (Finite False 0, Finite False 96)"
    by (simp add: eval_defs)
  ultimately show ?thesis by blast
qed

text \<open>
  C10. When the trimmed input begins with \<^verbatim>\<open>[\<close>, \<^verbatim>\<open>parsePoints\<close> drops its last code
  unit \<open>c\<close> before the scan, whatever it is: the points come from the candidates of the
  text between the bracket and \<open>c\<close>. So \<^verbatim>\<open>[(1,2) (3,4)\<close>, which has no closing bracket,
  gives the one point (1, 2); the second point is lost with the dropped parenthesis.
\<close>

theorem parsePoints_drops_last:
  "(trim s = lbracket # body @ [c] \<longrightarrow>
      parsePoints s =
        (case List.map_filter parsePoint (pointMatches (trim body)) of
           [] \<Rightarrow> Inl (Error (pointsMessage (lbracket # body @ [c])))
         | p # ps \<Rightarrow> Inr (p # ps))) \<and>
   parsePoints (js ''[(1,2) (3,4)'') = Inr [(Finite False 1, Finite False 2)]"
proof -
  have "parsePoints s =
        (case List.map_filter parsePoint (pointMatches (trim body)) of
           [] \<Rightarrow> Inl (Error (pointsMessage (lbracket # body @ [c])))
         | p # ps \<Rightarrow> Inr (p # ps))" if t: "trim s = lbracket # body @ [c]"
  proof -
    have "startsWith (trim s) [lbracket]" by (simp add: t startsWith_def)
    then show ?thesis
      by (simp add: parsePoints_bracket t slice_inner Let_def split: list.splits)
  qed
  moreover have "parsePoints (js ''[(1,2) (3,4)'') = Inr [(Finite False 1, Finite False 2)]"
    by (simp add: eval_defs parsePoints_def)
  ultimately show ?thesis by blast
qed

theorem parsePoints_drops_last_witness:
  "trim (js ''[(1,2)x'') = lbracket # js ''(1,2)'' @ [0x78] \<and>
   parsePoints (js ''[(1,2)x'') = Inr [(Finite False 1, Finite False 2)]"
proof -
  have t: "trim (js ''[(1,2)x'') = lbracket # js ''(1,2)'' @ [0x78]"
    by (simp add: eval_defs)
  have m: "List.map_filter parsePoint (pointMatches (trim (js ''(1,2)'')))
           = [(Finite False 1, Finite False 2)]"
    by (simp add: eval_defs List.map_filter_simps)
  from parsePoints_drops_last [of "js ''[(1,2)x''" "js ''(1,2)''" "0x78"] t
  have "parsePoints (js ''[(1,2)x'') =
        (case List.map_filter parsePoint (pointMatches (trim (js ''(1,2)''))) of
           [] \<Rightarrow> Inl (Error (pointsMessage (lbracket # js ''(1,2)'' @ [0x78])))
         | p # ps \<Rightarrow> Inr (p # ps))" by blast
  then have "parsePoints (js ''[(1,2)x'') = Inr [(Finite False 1, Finite False 2)]"
    unfolding m by simp
  with t show ?thesis by blast
qed

text \<open>
  C4. Every failure of \<^verbatim>\<open>parsePoints\<close> carries the message
  \<^verbatim>\<open>Invalid points format: T. Use "(x,y)" or "[(x,y) (x,y)]".\<close> with \<open>T\<close> the trimmed
  input, and \<^verbatim>\<open>parsePoints\<close> fails in each case where no point is collected: the
  trimmed input is empty, it begins with \<^verbatim>\<open>(\<close> and \<^verbatim>\<open>parsePoint\<close> rejects it, it begins
  with \<^verbatim>\<open>[\<close> and no candidate parses, or it begins with neither. The empty input gives
  the message with nothing in the place of \<open>T\<close>.
\<close>

theorem parsePoints_failure_message:
  "(parsePoints s = Inl e \<longrightarrow>
      e = Error (js ''Invalid points format: '' @ trim s @ js ''. Use '' @ quote
                 @ js ''(x,y)'' @ quote @ js '' or '' @ quote @ js ''[(x,y) (x,y)]''
                 @ quote @ js ''.'')) \<and>
   (trim s = [] \<longrightarrow> parsePoints s = Inl (Error (pointsMessage (trim s)))) \<and>
   (startsWith (trim s) [lparen] \<and> parsePoint (trim s) = None \<longrightarrow>
      parsePoints s = Inl (Error (pointsMessage (trim s)))) \<and>
   (startsWith (trim s) [lbracket] \<and>
    (\<forall>m \<in> set (pointMatches (trim (slice (trim s) 1 (- 1)))). parsePoint m = None) \<longrightarrow>
      parsePoints s = Inl (Error (pointsMessage (trim s)))) \<and>
   (\<not> startsWith (trim s) [lbracket] \<and> \<not> startsWith (trim s) [lparen] \<longrightarrow>
      parsePoints s = Inl (Error (pointsMessage (trim s)))) \<and>
   parsePoints (js '''') =
     Inl (Error (js ''Invalid points format: . Use '' @ quote @ js ''(x,y)'' @ quote
                 @ js '' or '' @ quote @ js ''[(x,y) (x,y)]'' @ quote @ js ''.''))"
proof -
  have a: "parsePoints s = Inl e \<longrightarrow>
      e = Error (js ''Invalid points format: '' @ trim s @ js ''. Use '' @ quote
                 @ js ''(x,y)'' @ quote @ js '' or '' @ quote @ js ''[(x,y) (x,y)]''
                 @ quote @ js ''.'')"
    using parsePoints_Inl [of s e] by (simp add: pointsMessage_def)
  have b: "trim s = [] \<longrightarrow> parsePoints s = Inl (Error (pointsMessage (trim s)))"
    by (simp add: parsePoints_def startsWith_def)
  have c: "startsWith (trim s) [lparen] \<and> parsePoint (trim s) = None \<longrightarrow>
      parsePoints s = Inl (Error (pointsMessage (trim s)))"
    by (simp add: parsePoints_paren)
  have d: "startsWith (trim s) [lbracket] \<and>
    (\<forall>m \<in> set (pointMatches (trim (slice (trim s) 1 (- 1)))). parsePoint m = None) \<longrightarrow>
      parsePoints s = Inl (Error (pointsMessage (trim s)))"
    by (simp add: parsePoints_bracket map_filter_Nil_iff)
  have e: "\<not> startsWith (trim s) [lbracket] \<and> \<not> startsWith (trim s) [lparen] \<longrightarrow>
      parsePoints s = Inl (Error (pointsMessage (trim s)))"
    by (simp add: parsePoints_other)
  have f: "parsePoints (js '''') =
     Inl (Error (js ''Invalid points format: . Use '' @ quote @ js ''(x,y)'' @ quote
                 @ js '' or '' @ quote @ js ''[(x,y) (x,y)]'' @ quote @ js ''.''))"
    by (simp add: parsePoints_def pointsMessage_def startsWith_def trim_empty js_def)
  from a b c d e f show ?thesis by blast
qed

theorem parsePoints_failure_message_witness:
  "parsePoints (js ''  (50,abc) '') = Inl (Error (pointsMessage (js ''(50,abc)''))) \<and>
   parsePoints (js ''[invalid]'') = Inl (Error (pointsMessage (js ''[invalid]''))) \<and>
   parsePoints (js ''50,96'') = Inl (Error (pointsMessage (js ''50,96''))) \<and>
   parsePoints (js ''  '') = Inl (Error (pointsMessage []))"
proof -
  have t1: "trim (js ''  (50,abc) '') = js ''(50,abc)''" by (simp add: eval_defs)
  have p1: "startsWith (js ''(50,abc)'') [lparen] \<and> parsePoint (js ''(50,abc)'') = None"
    by (simp add: eval_defs)
  have r1: "parsePoints (js ''  (50,abc) '') = Inl (Error (pointsMessage (js ''(50,abc)'')))"
    using parsePoints_failure_message [of "js ''  (50,abc) ''"] p1 unfolding t1 by blast
  have t2: "trim (js ''[invalid]'') = js ''[invalid]''" by (simp add: eval_defs)
  have p2: "startsWith (js ''[invalid]'') [lbracket] \<and>
     (\<forall>m \<in> set (pointMatches (trim (slice (js ''[invalid]'') 1 (- 1)))). parsePoint m = None)"
    by (simp add: eval_defs)
  have r2: "parsePoints (js ''[invalid]'') = Inl (Error (pointsMessage (js ''[invalid]'')))"
    using parsePoints_failure_message [of "js ''[invalid]''"] p2 unfolding t2 by blast
  have t3: "trim (js ''50,96'') = js ''50,96''" by (simp add: eval_defs)
  have p3: "\<not> startsWith (js ''50,96'') [lbracket] \<and> \<not> startsWith (js ''50,96'') [lparen]"
    by (simp add: eval_defs)
  have r3: "parsePoints (js ''50,96'') = Inl (Error (pointsMessage (js ''50,96'')))"
    using parsePoints_failure_message [of "js ''50,96''"] p3 unfolding t3 by blast
  have t4: "trim (js ''  '') = []" by (simp add: eval_defs)
  have r4: "parsePoints (js ''  '') = Inl (Error (pointsMessage []))"
    using parsePoints_failure_message [of "js ''  ''"] unfolding t4 by blast
  from r1 r2 r3 r4 show ?thesis by blast
qed

text \<open>
  C5. In a bracketed set, \<^verbatim>\<open>parsePoints\<close> succeeds as soon as one candidate parses, and
  returns the points of the candidates that parse: a candidate that \<^verbatim>\<open>parsePoint\<close>
  rejects adds nothing and fails nothing. Text without an opening parenthesis gives no
  candidate, and is passed over before a candidate. So \<^verbatim>\<open>[ (50,96) invalid ]\<close> gives the
  one point (50, 96).
\<close>

theorem parsePoints_skips:
  "(startsWith (trim s) [lbracket] \<and>
    (\<exists>m \<in> set (pointMatches (trim (slice (trim s) 1 (- 1)))). parsePoint m \<noteq> None) \<longrightarrow>
      parsePoints s =
        Inr (List.map_filter parsePoint (pointMatches (trim (slice (trim s) 1 (- 1)))))) \<and>
   (parsePoint bad = None \<longrightarrow>
      pushParsed acc (ms @ bad # ms') = pushParsed acc (ms @ ms')) \<and>
   (lparen \<notin> set g \<longrightarrow> pointMatches g = []) \<and>
   (lparen \<notin> set g \<and> body \<noteq> [] \<and> rparen \<notin> set body \<longrightarrow>
      pointMatches (g @ lparen # body @ rparen # t) =
        (lparen # body @ [rparen]) # pointMatches t) \<and>
   parsePoints (js ''[ (50,96) invalid ]'') = Inr [(Finite False 50, Finite False 96)]"
proof -
  have a: "startsWith (trim s) [lbracket] \<and>
    (\<exists>m \<in> set (pointMatches (trim (slice (trim s) 1 (- 1)))). parsePoint m \<noteq> None) \<longrightarrow>
      parsePoints s =
        Inr (List.map_filter parsePoint (pointMatches (trim (slice (trim s) 1 (- 1)))))"
    by (auto simp: parsePoints_bracket map_filter_Nil_iff Let_def)
  have b: "parsePoint bad = None \<longrightarrow>
      pushParsed acc (ms @ bad # ms') = pushParsed acc (ms @ ms')"
    by (simp add: pushParsed_eq map_filter_skip)
  have c: "lparen \<notin> set g \<longrightarrow> pointMatches g = []"
    by (simp add: pointMatches_none)
  have d: "lparen \<notin> set g \<and> body \<noteq> [] \<and> rparen \<notin> set body \<longrightarrow>
      pointMatches (g @ lparen # body @ rparen # t) =
        (lparen # body @ [rparen]) # pointMatches t"
    by (simp add: pointMatches_skip pointMatches_match del: pointMatches.simps)
  have e: "parsePoints (js ''[ (50,96) invalid ]'') = Inr [(Finite False 50, Finite False 96)]"
    by (simp add: eval_defs parsePoints_def)
  from a b c d e show ?thesis by blast
qed

theorem parsePoints_skips_witness:
  "parsePoints (js ''[(1,x) (50,96) (y) ]'') = Inr [(Finite False 50, Finite False 96)] \<and>
   pushParsed [] [js ''(1,x)'', js ''(50,96)''] = pushParsed [] [js ''(50,96)''] \<and>
   pointMatches (js ''invalid'') = [] \<and>
   pointMatches (js ''ab(50,96)cd'') = js ''(50,96)'' # pointMatches (js ''cd'')"
proof -
  have t: "trim (js ''[(1,x) (50,96) (y) ]'') = js ''[(1,x) (50,96) (y) ]''"
    by (simp add: eval_defs)
  have i: "trim (slice (js ''[(1,x) (50,96) (y) ]'') 1 (- 1)) = js ''(1,x) (50,96) (y)''"
    by (simp add: eval_defs)
  have c: "pointMatches (js ''(1,x) (50,96) (y)'') = [js ''(1,x)'', js ''(50,96)'', js ''(y)'']"
    by (simp add: eval_defs)
  have p1: "parsePoint (js ''(1,x)'') = None" by (simp add: eval_defs)
  have p2: "parsePoint (js ''(50,96)'') = Some (Finite False 50, Finite False 96)"
    by (simp add: eval_defs)
  have p3: "parsePoint (js ''(y)'') = None" by (simp add: eval_defs)
  have h: "startsWith (js ''[(1,x) (50,96) (y) ]'') [lbracket] \<and>
     (\<exists>m \<in> set [js ''(1,x)'', js ''(50,96)'', js ''(y)'']. parsePoint m \<noteq> None)"
    using p2 by (simp add: startsWith_def js_def lbracket_def)
  have r1: "parsePoints (js ''[(1,x) (50,96) (y) ]'') = Inr [(Finite False 50, Finite False 96)]"
    using parsePoints_skips [of "js ''[(1,x) (50,96) (y) ]''"] h
    unfolding t i c by (simp add: List.map_filter_simps p1 p2 p3)
  have r2: "pushParsed [] [js ''(1,x)'', js ''(50,96)''] = pushParsed [] [js ''(50,96)'']"
    using parsePoints_skips [of _ "js ''(1,x)''" "[]" "[]" "[js ''(50,96)'']"] p1 by simp
  have g1: "lparen \<notin> set (js ''invalid'')" by (simp add: js_def lparen_def)
  have r3: "pointMatches (js ''invalid'') = []"
    using parsePoints_skips [where g = "js ''invalid''"] g1 by blast
  have g2: "lparen \<notin> set (js ''ab'') \<and> js ''50,96'' \<noteq> [] \<and> rparen \<notin> set (js ''50,96'')"
    by (simp add: js_def lparen_def rparen_def)
  have "pointMatches (js ''ab'' @ lparen # js ''50,96'' @ rparen # js ''cd'') =
        (lparen # js ''50,96'' @ [rparen]) # pointMatches (js ''cd'')"
    using parsePoints_skips [where g = "js ''ab''" and body = "js ''50,96''" and t = "js ''cd''"] g2
    by blast
  then have r4: "pointMatches (js ''ab(50,96)cd'') = js ''(50,96)'' # pointMatches (js ''cd'')"
    by (simp add: js_def lparen_def rparen_def)
  from r1 r2 r3 r4 show ?thesis by blast
qed

text \<open>
  C8. A list returned by \<^verbatim>\<open>parsePoints\<close> is never empty. For bracketed input it holds the
  results of \<^verbatim>\<open>parsePoint\<close> on the candidates that parse, in the order of the candidates
  and one for each, equal points included; the candidates themselves stand in the scanned
  text from left to right, separated by the text passed over. So
  \<^verbatim>\<open>[(50,96) (510,296)]\<close> gives (50, 96), then (510, 296).
\<close>

theorem parsePoints_nonempty_in_order:
  "(parsePoints s = Inr pts \<longrightarrow> pts \<noteq> []) \<and>
   (startsWith (trim s) [lbracket] \<and> parsePoints s = Inr pts \<longrightarrow>
      pts = map the (filter (\<lambda>r. r \<noteq> None)
                       (map parsePoint (pointMatches (trim (slice (trim s) 1 (- 1)))))) \<and>
      length pts = length (filter (\<lambda>m. parsePoint m \<noteq> None)
                             (pointMatches (trim (slice (trim s) 1 (- 1)))))) \<and>
   (\<exists>gaps. length gaps = Suc (length (pointMatches (trim (slice (trim s) 1 (- 1))))) \<and>
           trim (slice (trim s) 1 (- 1)) =
             interleave gaps (pointMatches (trim (slice (trim s) 1 (- 1))))) \<and>
   parsePoints (js ''[(50,96) (510,296)]'') =
     Inr [(Finite False 50, Finite False 96), (Finite False 510, Finite False 296)]"
proof -
  have a: "parsePoints s = Inr pts \<longrightarrow> pts \<noteq> []"
    using parsePoints_Inr_nonempty by blast
  have b: "startsWith (trim s) [lbracket] \<and> parsePoints s = Inr pts \<longrightarrow>
      pts = map the (filter (\<lambda>r. r \<noteq> None)
                       (map parsePoint (pointMatches (trim (slice (trim s) 1 (- 1)))))) \<and>
      length pts = length (filter (\<lambda>m. parsePoint m \<noteq> None)
                             (pointMatches (trim (slice (trim s) 1 (- 1)))))"
  proof
    assume h: "startsWith (trim s) [lbracket] \<and> parsePoints s = Inr pts"
    then have "pts = List.map_filter parsePoint (pointMatches (trim (slice (trim s) 1 (- 1))))"
      by (auto simp: parsePoints_bracket Let_def split: if_splits)
    then show "pts = map the (filter (\<lambda>r. r \<noteq> None)
                       (map parsePoint (pointMatches (trim (slice (trim s) 1 (- 1)))))) \<and>
      length pts = length (filter (\<lambda>m. parsePoint m \<noteq> None)
                             (pointMatches (trim (slice (trim s) 1 (- 1)))))"
      using map_filter_conv [of parsePoint] length_map_filter [of parsePoint] by simp
  qed
  have c: "\<exists>gaps. length gaps = Suc (length (pointMatches (trim (slice (trim s) 1 (- 1))))) \<and>
           trim (slice (trim s) 1 (- 1)) =
             interleave gaps (pointMatches (trim (slice (trim s) 1 (- 1))))"
    by (rule pointMatches_interleave)
  have d: "parsePoints (js ''[(50,96) (510,296)]'') =
     Inr [(Finite False 50, Finite False 96), (Finite False 510, Finite False 296)]"
    by (simp add: eval_defs parsePoints_def)
  from a b c d show ?thesis by blast
qed

theorem parsePoints_nonempty_in_order_witness:
  "parsePoints (js ''[(7,8) (x) (7,8)]'') =
     Inr [(Finite False 7, Finite False 8), (Finite False 7, Finite False 8)] \<and>
   [(Finite False 7, Finite False 8), (Finite False 7, Finite False 8)] \<noteq> [] \<and>
   [(Finite False 7, Finite False 8), (Finite False 7, Finite False 8)] =
     map the (filter (\<lambda>r. r \<noteq> None)
       (map parsePoint (pointMatches (trim (slice (trim (js ''[(7,8) (x) (7,8)]'')) 1 (- 1))))))"
proof -
  have r: "parsePoints (js ''[(7,8) (x) (7,8)]'') =
     Inr [(Finite False 7, Finite False 8), (Finite False 7, Finite False 8)]"
    by (simp add: eval_defs parsePoints_def)
  have h: "startsWith (trim (js ''[(7,8) (x) (7,8)]'')) [lbracket]"
    by (simp add: eval_defs)
  from parsePoints_nonempty_in_order
    [of "js ''[(7,8) (x) (7,8)]''"
        "[(Finite False 7, Finite False 8), (Finite False 7, Finite False 8)]"] r h
  show ?thesis by blast
qed

text \<open>
  C6, as the claim states it, fails: \<^verbatim>\<open>parseCenter\<close> does not trim. The input
  \<^verbatim>\<open> (256,256)\<close>, with a leading space, has a trimmed form that begins with \<^verbatim>\<open>(\<close> and
  that \<^verbatim>\<open>parsePoint\<close> accepts, and \<^verbatim>\<open>parseCenter\<close> throws on it.
\<close>

theorem parseCenter_leading_space_counterexample:
  "startsWith (trim (js '' (256,256)'')) [lparen] \<and>
   parsePoint (trim (js '' (256,256)'')) = Some (Finite False 256, Finite False 256) \<and>
   parseCenter (js '' (256,256)'') = Inl (Error (centerMessage (js '' (256,256)'')))"
  by (simp add: eval_defs parseCenter_def)

text \<open>
  C6, amended. \<^verbatim>\<open>parseCenter\<close> returns a point exactly when the input as received
  begins with \<^verbatim>\<open>(\<close> and \<^verbatim>\<open>parsePoint\<close> accepts it, and the point is the one of
  \<^verbatim>\<open>parsePoint\<close>. On every other input it throws, with the message
  \<^verbatim>\<open>Invalid center format: S. Use "(cx,cy)" or pass separate cx cy.\<close> where \<open>S\<close> is the
  input as received.
\<close>

theorem parseCenter_result:
  "((parseCenter s = Inr p) = (startsWith s [lparen] \<and> parsePoint s = Some p)) \<and>
   (\<not> (startsWith s [lparen] \<and> parsePoint s \<noteq> None) \<longrightarrow>
      parseCenter s =
        Inl (Error (js ''Invalid center format: '' @ s @ js ''. Use '' @ quote
                    @ js ''(cx,cy)'' @ quote @ js '' or pass separate cx cy.''))) \<and>
   parseCenter (js ''(256,256)'') = Inr (Finite False 256, Finite False 256) \<and>
   parseCenter (js ''invalid'') =
     Inl (Error (js ''Invalid center format: invalid. Use '' @ quote
                 @ js ''(cx,cy)'' @ quote @ js '' or pass separate cx cy.'')) \<and>
   parseCenter (js ''(256,abc)'') =
     Inl (Error (js ''Invalid center format: (256,abc). Use '' @ quote
                 @ js ''(cx,cy)'' @ quote @ js '' or pass separate cx cy.''))"
proof -
  have a: "(parseCenter s = Inr p) = (startsWith s [lparen] \<and> parsePoint s = Some p)"
    by (rule parseCenter_Inr)
  have b: "\<not> (startsWith s [lparen] \<and> parsePoint s \<noteq> None) \<longrightarrow>
      parseCenter s =
        Inl (Error (js ''Invalid center format: '' @ s @ js ''. Use '' @ quote
                    @ js ''(cx,cy)'' @ quote @ js '' or pass separate cx cy.''))"
    using parseCenter_fails [of s] by (simp add: centerMessage_def)
  have c: "parseCenter (js ''(256,256)'') = Inr (Finite False 256, Finite False 256)"
    by (simp add: eval_defs parseCenter_def)
  have d: "parseCenter (js ''invalid'') =
     Inl (Error (js ''Invalid center format: invalid. Use '' @ quote
                 @ js ''(cx,cy)'' @ quote @ js '' or pass separate cx cy.''))"
    by (simp add: eval_defs parseCenter_def centerMessage_def)
  have e: "parseCenter (js ''(256,abc)'') =
     Inl (Error (js ''Invalid center format: (256,abc). Use '' @ quote
                 @ js ''(cx,cy)'' @ quote @ js '' or pass separate cx cy.''))"
    by (simp add: eval_defs parseCenter_def centerMessage_def)
  from a b c d e show ?thesis by blast
qed

theorem parseCenter_result_witness:
  "\<not> (startsWith (js ''256,256'') [lparen] \<and> parsePoint (js ''256,256'') \<noteq> None) \<and>
   parseCenter (js ''256,256'') =
     Inl (Error (js ''Invalid center format: '' @ js ''256,256'' @ js ''. Use '' @ quote
                 @ js ''(cx,cy)'' @ quote @ js '' or pass separate cx cy.''))"
proof -
  have h: "\<not> (startsWith (js ''256,256'') [lparen] \<and> parsePoint (js ''256,256'') \<noteq> None)"
    by (simp add: startsWith_def js_def lparen_def)
  with parseCenter_result [of "js ''256,256''"] show ?thesis by blast
qed

text \<open>
  C7, as the claim states it, fails: \<^verbatim>\<open>parsePoint\<close> rejects NaN only. On
  \<^verbatim>\<open>(Infinity,1)\<close> it returns a point whose first coordinate is positive infinity.
\<close>

theorem parsePoint_infinity_counterexample:
  "parsePoint (js ''(Infinity,1)'') = Some (Infinity False, Finite False 1) \<and>
   \<not> isFinite (Infinity False)"
  by (simp add: eval_defs isFinite_def)

text \<open>
  C7, amended. No coordinate of a point returned by \<^verbatim>\<open>parsePoint\<close>, of a point in a list
  returned by \<^verbatim>\<open>parsePoints\<close> or of the point returned by \<^verbatim>\<open>parseCenter\<close> is NaN.
\<close>

theorem parsed_coordinates_not_NaN:
  "(parsePoint s = Some (x, y) \<longrightarrow> \<not> isNaN x \<and> \<not> isNaN y) \<and>
   (parsePoints s = Inr pts \<longrightarrow> (\<forall>(x, y) \<in> set pts. \<not> isNaN x \<and> \<not> isNaN y)) \<and>
   (parseCenter s = Inr (x, y) \<longrightarrow> \<not> isNaN x \<and> \<not> isNaN y)"
proof -
  have a: "parsePoint s = Some (x, y) \<longrightarrow> \<not> isNaN x \<and> \<not> isNaN y"
    using parsePoint_not_NaN by blast
  have b: "parsePoints s = Inr pts \<longrightarrow> (\<forall>(x, y) \<in> set pts. \<not> isNaN x \<and> \<not> isNaN y)"
  proof
    assume r: "parsePoints s = Inr pts"
    have "\<exists>m. parsePoint m = Some q" if "q \<in> set pts" for q
      using r that
      by (auto simp: parsePoints_def Let_def pushParsed_eq map_filter_conv
               split: if_splits option.splits)
    then show "\<forall>(x, y) \<in> set pts. \<not> isNaN x \<and> \<not> isNaN y"
      using parsePoint_not_NaN by fastforce
  qed
  have c: "parseCenter s = Inr (x, y) \<longrightarrow> \<not> isNaN x \<and> \<not> isNaN y"
    using parsePoint_not_NaN by (auto simp: parseCenter_Inr)
  from a b c show ?thesis by blast
qed

theorem parsed_coordinates_not_NaN_witness:
  "parsePoint (js ''(-Infinity,96)'') = Some (Infinity True, Finite False 96) \<and>
   \<not> isNaN (Infinity True) \<and> \<not> isNaN (Finite False 96) \<and>
   parsePoints (js ''(50,96)'') = Inr [(Finite False 50, Finite False 96)] \<and>
   \<not> isNaN (Finite False 50) \<and>
   parseCenter (js ''(256,256)'') = Inr (Finite False 256, Finite False 256) \<and>
   \<not> isNaN (Finite False 256)"
proof -
  have p: "parsePoint (js ''(-Infinity,96)'') = Some (Infinity True, Finite False 96)"
    by (simp add: eval_defs)
  have q: "parsePoints (js ''(50,96)'') = Inr [(Finite False 50, Finite False 96)]"
    by (simp add: eval_defs parsePoints_def)
  have r: "parseCenter (js ''(256,256)'') = Inr (Finite False 256, Finite False 256)"
    by (simp add: eval_defs parseCenter_def)
  from parsed_coordinates_not_NaN
         [of "js ''(-Infinity,96)''" "Infinity True" "Finite False 96"] p
  have 1: "\<not> isNaN (Infinity True) \<and> \<not> isNaN (Finite False 96)" by blast
  from parsed_coordinates_not_NaN
         [of "js ''(50,96)''" _ _ "[(Finite False 50, Finite False 96)]"] q
  have 2: "\<not> isNaN (Finite False 50)" by auto
  from parsed_coordinates_not_NaN
         [of "js ''(256,256)''" "Finite False 256" "Finite False 256"] r
  have 3: "\<not> isNaN (Finite False 256)" by blast
  from p q r 1 2 3 show ?thesis by blast
qed

section \<open>Properties of the rotation\<close>

lemma roundMagnitude_1e16_minus_1: "roundMagnitude 9999999999999999 = Some 10000000000000000"
  by (subst roundMagnitude_step [where p = 9999999999999999 and q = 1 and e = 53 and x = 1 and n = 5000000000000000])
    (simp_all add: ilog2_def bitlen_0 roundTiesToEven_def pow2_def)

lemma roundMagnitude_1e16: "roundMagnitude 10000000000000000 = Some 10000000000000000"
  by (subst roundMagnitude_step [where p = 10000000000000000 and q = 1 and e = 53 and x = 1 and n = 5000000000000000])
    (simp_all add: ilog2_def bitlen_0 roundTiesToEven_def pow2_def)

lemma radians_zero:
  "fdiv (fmul (Finite s 0) PI) (Finite False 180) = Finite s 0"
  by (simp add: PI_def toNumber_def)

lemma rotate_zero_angle_example:
  assumes "conforming M"
  shows "rotate_point M (Finite False 1) (Finite False 0) (Finite False 0)
           (Finite False 10000000000000000) (Finite False 0)
         = (Finite False 0, Finite False 0)"
proof -
  have c: "mathCos M (Finite False 0) = Finite False 1"
    and s: "mathSin M (Finite False 0) = Finite False 0"
    using assms by (simp_all add: conforming_def)
  show ?thesis
    by (simp add: rotate_point_def radians_zero c s fsub_def signed_def toNumber_def
          roundMagnitude_1e16_minus_1 roundMagnitude_1e16 Let_def)
qed

lemma conforming_smallAngleMath: "conforming smallAngleMath"
  by (simp add: conforming_def smallAngleMath_def)

lemma add_zero_left:
  assumes "0 < m" "roundMagnitude m = Some m"
  shows "fadd (Finite z 0) (Finite s m) = Finite s m"
  using assms by (cases s) (simp_all add: signed_def toNumber_def)

lemma add_zero_right:
  assumes "0 < m" "roundMagnitude m = Some m"
  shows "fadd (Finite s m) (Finite z 0) = Finite s m"
  using assms by (cases s) (simp_all add: signed_def toNumber_def)

lemma sub_self: "fsub (Finite s m) (Finite s m) = Finite False 0"
  by (simp add: fsub_def signed_def)

lemma mul_zero_right: "fmul (Finite a p) (Finite s 0) = Finite (a \<noteq> s) 0"
  by (simp add: toNumber_def)

lemma mul_zero_left: "fmul (Finite s 0) (Finite a p) = Finite (s \<noteq> a) 0"
  by (simp add: toNumber_def)

lemma mul_one_left:
  assumes "roundMagnitude m = Some m"
  shows "fmul (Finite False 1) (Finite s m) = Finite s m"
  using assms by (simp add: toNumber_def)

lemma add_zeros: "fadd (Finite a 0) (Finite b 0) = Finite (a \<and> b) 0"
  by (simp add: signed_def)

lemma rotate_center_fixed:
  assumes cx: "0 \<le> m" "roundMagnitude m = Some m" "m = 0 \<longrightarrow> \<not> s"
    and cy: "0 \<le> n" "roundMagnitude n = Some n" "n = 0 \<longrightarrow> \<not> t"
    and c: "mathCos M (fdiv (fmul angle PI) (Finite False 180)) = Finite a p"
    and s: "mathSin M (fdiv (fmul angle PI) (Finite False 180)) = Finite b q"
  shows "rotate_point M (Finite s m) (Finite t n) angle (Finite s m) (Finite t n)
         = (Finite s m, Finite t n)"
proof -
  have x: "fadd (Finite z 0) (Finite s m) = Finite s m" for z
  proof (cases "m = 0")
    case True
    with cx show ?thesis by (simp add: signed_def)
  next
    case False
    with cx have "0 < m" by simp
    then show ?thesis using cx(2) by (rule add_zero_left)
  qed
  have y: "fadd (Finite z 0) (Finite t n) = Finite t n" for z
  proof (cases "n = 0")
    case True
    with cy show ?thesis by (simp add: signed_def)
  next
    case False
    with cy have "0 < n" by simp
    then show ?thesis using cy(2) by (rule add_zero_left)
  qed
  have d: "fsub (Finite u 0) (Finite v 0) = Finite (u \<and> \<not> v) 0" for u v
    by (simp add: fsub_def signed_def)
  show ?thesis
    unfolding rotate_point_def Let_def c s sub_self mul_zero_right d add_zeros x y ..
qed
lemma sub_zeros: "fsub (Finite u 0) (Finite v 0) = Finite (u \<and> \<not> v) 0"
  by (simp add: fsub_def signed_def)

lemma sub_exact:
  assumes "roundMagnitude \<bar>signed s m - signed t n\<bar> = Some \<bar>signed s m - signed t n\<bar>"
  shows "fsub (Finite s m) (Finite t n) =
           Finite (if signed s m - signed t n = 0 then s \<and> \<not> t else signed s m - signed t n < 0)
                  \<bar>signed s m - signed t n\<bar>"
proof -
  have "signed s m + signed (\<not> t) n = signed s m - signed t n"
    by (simp add: signed_def)
  then show ?thesis using assms by (simp add: fsub_def toNumber_def Let_def)
qed

lemma add_back:
  assumes x: "0 \<le> m" "roundMagnitude m = Some m" "m = 0 \<longrightarrow> \<not> s"
    and cx: "0 \<le> n"
    and d: "d = signed s m - signed t n" "d \<noteq> 0"
  shows "fadd (Finite (d < 0) \<bar>d\<bar>) (Finite t n) = Finite s m"
proof -
  have v: "signed (d < 0) \<bar>d\<bar> + signed t n = signed s m"
    using d by (simp add: signed_def)
  show ?thesis
  proof (cases "m = 0")
    case True
    then have "signed s m = 0" by (simp add: signed_def)
    moreover have "\<not> ((d < 0) \<and> t)" using d True cx by (auto simp: signed_def)
    ultimately show ?thesis using v True x(3) by simp
  next
    case False
    with x have pos: "0 < m" by simp
    then have "signed s m \<noteq> 0" "(signed s m < 0) = s" "\<bar>signed s m\<bar> = m"
      by (auto simp: signed_def)
    then show ?thesis using v x(2) by (simp add: toNumber_def)
  qed
qed

lemma add_back_zero:
  assumes x: "0 \<le> m" "roundMagnitude m = Some m" "m = 0 \<longrightarrow> \<not> s"
    and cx: "0 \<le> n"
    and d: "signed s m - signed t n = 0"
    and w: "w \<longrightarrow> s"
  shows "fadd (Finite w 0) (Finite t n) = Finite s m"
proof (cases "n = 0")
  case True
  with d have "m = 0" by (auto simp: signed_def split: if_splits)
  with True x(3) w show ?thesis by (simp add: signed_def)
next
  case False
  with cx have pos: "0 < n" by simp
  with d x(1) have eq: "s = t" "m = n" by (auto simp: signed_def split: if_splits)
  show ?thesis using pos x(2) unfolding eq by (rule add_zero_left)
qed

lemma nx_chain:
  assumes x: "0 \<le> m" "roundMagnitude m = Some m" "m = 0 \<longrightarrow> \<not> s"
    and cx: "0 \<le> n"
    and ex: "roundMagnitude \<bar>signed s m - signed t n\<bar> = Some \<bar>signed s m - signed t n\<bar>"
  shows "fadd (fsub (fmul (Finite False 1) (fsub (Finite s m) (Finite t n))) (Finite z 0))
             (Finite t n) = Finite s m"
proof -
  define d where "d = signed s m - signed t n"
  show ?thesis
  proof (cases "d = 0")
    case True
    then have dx: "fsub (Finite s m) (Finite t n) = Finite (s \<and> \<not> t) 0"
      using sub_exact [OF ex] by (simp add: d_def)
    have "fadd (Finite ((False \<noteq> (s \<and> \<not> t)) \<and> \<not> z) 0) (Finite t n) = Finite s m"
      using x cx True [unfolded d_def] by (rule add_back_zero) simp
    then show ?thesis
      unfolding dx mul_zero_right sub_zeros .
  next
    case False
    then have dx: "fsub (Finite s m) (Finite t n) = Finite (d < 0) \<bar>d\<bar>"
      using sub_exact [OF ex] by (simp add: d_def)
    have r: "roundMagnitude \<bar>d\<bar> = Some \<bar>d\<bar>" using ex by (simp add: d_def)
    have one: "fmul (Finite False 1) (Finite (d < 0) \<bar>d\<bar>) = Finite (d < 0) \<bar>d\<bar>"
      using r by (rule mul_one_left)
    have "0 < \<bar>d\<bar>" using False by simp
    then have z: "fsub (Finite (d < 0) \<bar>d\<bar>) (Finite z 0) = Finite (d < 0) \<bar>d\<bar>"
      using r by (simp add: fsub_def add_zero_right del: fadd.simps)
    have "fadd (Finite (d < 0) \<bar>d\<bar>) (Finite t n) = Finite s m"
      using x cx d_def False by (rule add_back)
    then show ?thesis
      unfolding dx one z .
  qed
qed

lemma ny_chain:
  assumes y: "0 \<le> m" "roundMagnitude m = Some m" "m = 0 \<longrightarrow> \<not> s"
    and cy: "0 \<le> n"
    and ex: "roundMagnitude \<bar>signed s m - signed t n\<bar> = Some \<bar>signed s m - signed t n\<bar>"
  shows "fadd (fadd (Finite z 0) (fmul (Finite False 1) (fsub (Finite s m) (Finite t n))))
             (Finite t n) = Finite s m"
proof -
  define d where "d = signed s m - signed t n"
  show ?thesis
  proof (cases "d = 0")
    case True
    then have dy: "fsub (Finite s m) (Finite t n) = Finite (s \<and> \<not> t) 0"
      using sub_exact [OF ex] by (simp add: d_def)
    have "fadd (Finite (z \<and> (False \<noteq> (s \<and> \<not> t))) 0) (Finite t n) = Finite s m"
      using y cy True [unfolded d_def] by (rule add_back_zero) simp
    then show ?thesis
      unfolding dy mul_zero_right add_zeros .
  next
    case False
    then have dy: "fsub (Finite s m) (Finite t n) = Finite (d < 0) \<bar>d\<bar>"
      using sub_exact [OF ex] by (simp add: d_def)
    have r: "roundMagnitude \<bar>d\<bar> = Some \<bar>d\<bar>" using ex by (simp add: d_def)
    have one: "fmul (Finite False 1) (Finite (d < 0) \<bar>d\<bar>) = Finite (d < 0) \<bar>d\<bar>"
      using r by (rule mul_one_left)
    have "0 < \<bar>d\<bar>" using False by simp
    then have z: "fadd (Finite z 0) (Finite (d < 0) \<bar>d\<bar>) = Finite (d < 0) \<bar>d\<bar>"
      using r by (rule add_zero_left)
    have "fadd (Finite (d < 0) \<bar>d\<bar>) (Finite t n) = Finite s m"
      using y cy d_def False by (rule add_back)
    then show ?thesis
      unfolding dy one z .
  qed
qed

lemma sub_exact_finite:
  assumes "roundMagnitude \<bar>signed s m - signed t n\<bar> = Some \<bar>signed s m - signed t n\<bar>"
  shows "\<exists>u k. fsub (Finite s m) (Finite t n) = Finite u k"
  using sub_exact [OF assms] by blast

lemma rotate_zero_angle:
  assumes M: "conforming M"
    and x: "0 \<le> xm" "roundMagnitude xm = Some xm" "xm = 0 \<longrightarrow> \<not> xs"
    and y: "0 \<le> ym" "roundMagnitude ym = Some ym" "ym = 0 \<longrightarrow> \<not> ys"
    and cx: "0 \<le> cxm" and cy: "0 \<le> cym"
    and ex: "roundMagnitude \<bar>signed xs xm - signed cxs cxm\<bar> = Some \<bar>signed xs xm - signed cxs cxm\<bar>"
    and ey: "roundMagnitude \<bar>signed ys ym - signed cys cym\<bar> = Some \<bar>signed ys ym - signed cys cym\<bar>"
  shows "rotate_point M (Finite xs xm) (Finite ys ym) (Finite a 0) (Finite cxs cxm) (Finite cys cym)
         = (Finite xs xm, Finite ys ym)"
proof -
  have c: "mathCos M (Finite a 0) = Finite False 1"
    using M by (cases a) (simp_all add: conforming_def)
  have s: "mathSin M (Finite a 0) = Finite a 0"
    using M by (cases a) (simp_all add: conforming_def)
  obtain u k where dx: "fsub (Finite xs xm) (Finite cxs cxm) = Finite u k"
    using sub_exact_finite [OF ex] by blast
  obtain v l where dy: "fsub (Finite ys ym) (Finite cys cym) = Finite v l"
    using sub_exact_finite [OF ey] by blast
  have sx: "fmul (Finite a 0) (fsub (Finite xs xm) (Finite cxs cxm)) = Finite (a \<noteq> u) 0"
    unfolding dx by (rule mul_zero_left)
  have sy: "fmul (Finite a 0) (fsub (Finite ys ym) (Finite cys cym)) = Finite (a \<noteq> v) 0"
    unfolding dy by (rule mul_zero_left)
  have nx: "fadd (fsub (fmul (Finite False 1) (fsub (Finite xs xm) (Finite cxs cxm)))
                   (fmul (Finite a 0) (fsub (Finite ys ym) (Finite cys cym))))
              (Finite cxs cxm) = Finite xs xm"
    unfolding sy using x cx ex by (rule nx_chain)
  have ny: "fadd (fadd (fmul (Finite a 0) (fsub (Finite xs xm) (Finite cxs cxm)))
                   (fmul (Finite False 1) (fsub (Finite ys ym) (Finite cys cym))))
              (Finite cys cym) = Finite ys ym"
    unfolding sx using y cy ey by (rule ny_chain)
  show ?thesis
    unfolding rotate_point_def Let_def radians_zero c s nx ny ..
qed

lemma coprime_radians_90: "coprime (4974073419394997::int) 3166593487994880"
  by code_simp

lemma quotient_radians_90: "quotient_of (4974073419394997 / 3166593487994880) = (4974073419394997, 3166593487994880)"
  by (rule quotient_of_coprime_eq) (simp_all add: coprime_radians_90)

lemma coprime_90_PI: "coprime (39792587355159975::int) 140737488355328"
  by code_simp

lemma quotient_90_PI: "quotient_of (39792587355159975 / 140737488355328) = (39792587355159975, 140737488355328)"
  by (rule quotient_of_coprime_eq) (simp_all add: coprime_90_PI)

lemma round_90_PI:
  "roundMagnitude (39792587355159975 / 140737488355328) = Some (4974073419394997 / 2 ^ 44)"
  by (subst roundMagnitude_step [where p = 39792587355159975 and q = 140737488355328
        and e = 8 and x = "- 44" and n = 4974073419394997])
     (simp_all add: quotient_90_PI ilog2_def bitlen_0 roundTiesToEven_def pow2_def)

lemma mul_signed_90_PI: "fmul (Finite s 90) PI = Finite s (4974073419394997 / 2 ^ 44)"
  using round_90_PI by (simp add: PI_def toNumber_def)

lemma round_radians_90:
  "roundMagnitude (4974073419394997 / 3166593487994880) = Some (884279719003555 / 2 ^ 49)"
  by (subst roundMagnitude_step [where p = 4974073419394997 and q = 3166593487994880
        and e = 0 and x = "- 52" and n = 7074237752028440])
     (simp_all add: quotient_radians_90 ilog2_def bitlen_0 roundTiesToEven_def pow2_def)

lemma radians_signed_90:
  "fdiv (fmul (Finite s 90) PI) (Finite False 180) = Finite s (884279719003555 / 2 ^ 49)"
  using round_radians_90 by (simp add: mul_signed_90_PI toNumber_def)




















section \<open>Claims about the rotation\<close>



text \<open>
  C2, as the claim states it, fails. With the angle 0, \<^verbatim>\<open>rotate(1, 0, 0, 1e16, 0)\<close>
  returns (0, 0): the difference \<open>1 - 10^16\<close> is rounded to \<open>- 10^16\<close>, and adding the
  center back gives 0. A negative zero comes back as a positive zero, in both degenerate
  cases. With an infinite angle the cosine and the sine are NaN and so is the result,
  also for a point on the center. The library chosen here plays no part: the angle 0 and
  the infinite angle are arguments at which ECMAScript fixes the cosine and the sine.
\<close>

theorem rotate_degenerate_counterexample:
  "conforming smallAngleMath \<and>
   isDouble (Finite False 1) \<and> isDouble (Finite False 10000000000000000) \<and>
   rotate_point smallAngleMath (Finite False 1) (Finite False 0) (Finite False 0)
     (Finite False 10000000000000000) (Finite False 0) = (Finite False 0, Finite False 0) \<and>
   rotate_point smallAngleMath (Finite True 0) (Finite False 0) (Finite False 0)
     (Finite False 0) (Finite False 0) = (Finite False 0, Finite False 0) \<and>
   rotate_point smallAngleMath (Finite True 0) (Finite False 0) (Finite False 0)
     (Finite True 0) (Finite False 0) = (Finite False 0, Finite False 0) \<and>
   rotate_point smallAngleMath (Finite False 1) (Finite False 1) (Infinity False)
     (Finite False 1) (Finite False 1) = (NaN, NaN)"
proof -
  have a: "conforming smallAngleMath" by (rule conforming_smallAngleMath)
  have b: "isDouble (Finite False 1) \<and> isDouble (Finite False 10000000000000000)"
    by (simp add: isDouble_def roundMagnitude_1e16)
  have c: "rotate_point smallAngleMath (Finite False 1) (Finite False 0) (Finite False 0)
     (Finite False 10000000000000000) (Finite False 0) = (Finite False 0, Finite False 0)"
    using a by (rule rotate_zero_angle_example)
  have d: "rotate_point smallAngleMath (Finite True 0) (Finite False 0) (Finite False 0)
     (Finite False 0) (Finite False 0) = (Finite False 0, Finite False 0)"
    by (simp add: rotate_point_def radians_zero smallAngleMath_def fsub_def signed_def toNumber_def
          Let_def)
  have e: "rotate_point smallAngleMath (Finite True 0) (Finite False 0) (Finite False 0)
     (Finite True 0) (Finite False 0) = (Finite False 0, Finite False 0)"
    by (simp add: rotate_point_def radians_zero smallAngleMath_def fsub_def signed_def toNumber_def
          Let_def)
  have f: "rotate_point smallAngleMath (Finite False 1) (Finite False 1) (Infinity False)
     (Finite False 1) (Finite False 1) = (NaN, NaN)"
    by (simp add: rotate_point_def PI_def smallAngleMath_def fsub_def signed_def toNumber_def Let_def)
  from a b c d e f show ?thesis by blast
qed

text \<open>
  C2, amended. Let the library conform to ECMAScript. For finite \<open>x\<close>, \<open>y\<close>, \<open>cx\<close>,
  \<open>cy\<close> with \<open>x\<close> and \<open>y\<close> other than negative zero and with the differences
  \<open>x - cx\<close> and \<open>y - cy\<close> computed without rounding, \<^verbatim>\<open>rotate(x, y, 0, cx, cy)\<close> is
  \<open>(x, y)\<close> exactly, for the angle \<open>+0\<close> and for \<open>-0\<close>. For finite \<open>cx\<close> and \<open>cy\<close>
  other than negative zero and every angle at which the cosine and the sine are finite,
  \<^verbatim>\<open>rotate(cx, cy, angle, cx, cy)\<close> is \<open>(cx, cy)\<close> exactly.
\<close>

theorem rotate_degenerate_cases:
  "(conforming M \<and> isDouble x \<and> isDouble y \<and> isDouble cx \<and> isDouble cy \<and>
    x \<noteq> Finite True 0 \<and> y \<noteq> Finite True 0 \<and>
    exactDifference x cx \<and> exactDifference y cy \<longrightarrow>
      rotate_point M x y (Finite a 0) cx cy = (x, y)) \<and>
   (isFinite cx \<and> isFinite cy \<and> isDouble cx \<and> isDouble cy \<and>
    cx \<noteq> Finite True 0 \<and> cy \<noteq> Finite True 0 \<and>
    isFinite (mathCos M (fdiv (fmul angle PI) (Finite False 180))) \<and>
    isFinite (mathSin M (fdiv (fmul angle PI) (Finite False 180))) \<longrightarrow>
      rotate_point M cx cy angle cx cy = (cx, cy))"
proof -
  have zero: "rotate_point M x y (Finite a 0) cx cy = (x, y)"
    if M: "conforming M" and d: "isDouble x" "isDouble y" "isDouble cx" "isDouble cy"
      and z: "x \<noteq> Finite True 0" "y \<noteq> Finite True 0"
      and e: "exactDifference x cx" "exactDifference y cy"
  proof -
    from e obtain xs xm ys ym cxs cxm cys cym where
      v: "x = Finite xs xm" "y = Finite ys ym" "cx = Finite cxs cxm" "cy = Finite cys cym"
      by (auto simp: exactDifference_def split: number.splits)
    have x: "0 \<le> xm" "roundMagnitude xm = Some xm" "xm = 0 \<longrightarrow> \<not> xs"
      using d(1) z(1) by (auto simp: v isDouble_def)
    have y: "0 \<le> ym" "roundMagnitude ym = Some ym" "ym = 0 \<longrightarrow> \<not> ys"
      using d(2) z(2) by (auto simp: v isDouble_def)
    have c: "0 \<le> cxm" "0 \<le> cym" using d(3,4) by (auto simp: v isDouble_def)
    have ex: "roundMagnitude \<bar>signed xs xm - signed cxs cxm\<bar>
                = Some \<bar>signed xs xm - signed cxs cxm\<bar>"
      using e(1) by (simp add: v exactDifference_def)
    have ey: "roundMagnitude \<bar>signed ys ym - signed cys cym\<bar>
                = Some \<bar>signed ys ym - signed cys cym\<bar>"
      using e(2) by (simp add: v exactDifference_def)
    show ?thesis unfolding v using M x y c ex ey by (rule rotate_zero_angle)
  qed
  have center: "rotate_point M cx cy angle cx cy = (cx, cy)"
    if f: "isFinite cx" "isFinite cy" and d: "isDouble cx" "isDouble cy"
      and z: "cx \<noteq> Finite True 0" "cy \<noteq> Finite True 0"
      and t: "isFinite (mathCos M (fdiv (fmul angle PI) (Finite False 180)))"
             "isFinite (mathSin M (fdiv (fmul angle PI) (Finite False 180)))"
  proof -
    from f obtain s m u n where v: "cx = Finite s m" "cy = Finite u n"
      by (auto simp: isFinite_def split: number.splits)
    from t obtain a p b q where
      cs: "mathCos M (fdiv (fmul angle PI) (Finite False 180)) = Finite a p"
          "mathSin M (fdiv (fmul angle PI) (Finite False 180)) = Finite b q"
      by (auto simp: isFinite_def split: number.splits)
    have x: "0 \<le> m" "roundMagnitude m = Some m" "m = 0 \<longrightarrow> \<not> s"
      using d(1) z(1) by (auto simp: v isDouble_def)
    have y: "0 \<le> n" "roundMagnitude n = Some n" "n = 0 \<longrightarrow> \<not> u"
      using d(2) z(2) by (auto simp: v isDouble_def)
    show ?thesis unfolding v using x y cs by (rule rotate_center_fixed)
  qed
  from zero center show ?thesis by blast
qed

theorem rotate_degenerate_cases_witness:
  "rotate_point smallAngleMath (Finite False 2) (Finite False 3) (Finite False 0)
     (Finite False 1) (Finite False 1) = (Finite False 2, Finite False 3) \<and>
   rotate_point smallAngleMath (Finite False 256) (Finite True 7) (Finite False 90)
     (Finite False 256) (Finite True 7) = (Finite False 256, Finite True 7)"
proof -
  have M: "conforming smallAngleMath" by (rule conforming_smallAngleMath)
  have d: "isDouble (Finite False 2) \<and> isDouble (Finite False 3) \<and> isDouble (Finite False 1)"
    by (simp add: isDouble_def)
  have e: "exactDifference (Finite False 2) (Finite False 1) \<and>
           exactDifference (Finite False 3) (Finite False 1)"
    by (simp add: exactDifference_def signed_def)
  have 1: "rotate_point smallAngleMath (Finite False 2) (Finite False 3) (Finite False 0)
     (Finite False 1) (Finite False 1) = (Finite False 2, Finite False 3)"
    using rotate_degenerate_cases
      [where M = smallAngleMath and x = "Finite False 2" and y = "Finite False 3"
         and cx = "Finite False 1" and cy = "Finite False 1" and a = False, THEN conjunct1]
      M d e by simp
  have f: "isFinite (Finite False 256) \<and> isFinite (Finite True 7) \<and>
           isDouble (Finite False 256) \<and> isDouble (Finite True 7)"
    by (simp add: isFinite_def isDouble_def)
  have t: "isFinite (mathCos smallAngleMath (fdiv (fmul (Finite False 90) PI) (Finite False 180))) \<and>
           isFinite (mathSin smallAngleMath (fdiv (fmul (Finite False 90) PI) (Finite False 180)))"
    unfolding radians_signed_90 by (simp add: smallAngleMath_def isFinite_def)
  have 2: "rotate_point smallAngleMath (Finite False 256) (Finite True 7) (Finite False 90)
     (Finite False 256) (Finite True 7) = (Finite False 256, Finite True 7)"
    using rotate_degenerate_cases
      [where M = smallAngleMath and cx = "Finite False 256" and cy = "Finite True 7"
         and angle = "Finite False 90", THEN conjunct2]
      f t by simp
  from 1 2 show ?thesis by blast
qed

end
